theory Spec2Isabelle
  imports Complex_Main "HOL-Library.Log_Nat" "HOL-Library.Multiset" "HOL-Library.Product_Lexorder"
begin

section \<open>Video-Annote: time/frame recomputation, lane stacking, colours, capture and masking\<close>

text \<open>
  Shallow embedding of the computational core of the \<^verbatim>\<open>video_annote\<close> package.
  Python \<^verbatim>\<open>int\<close> is \<^typ>\<open>int\<close>. An argument that the source tests against \<^verbatim>\<open>None\<close> is an
  \<open>option\<close>. A function that can raise returns a sum whose left summand is the exception.
\<close>

subsection \<open>Exceptions\<close>

datatype error = ValueError string | OverflowError string | ZeroDivisionError string

subsection \<open>Python floats\<close>

text \<open>
  A Python \<^verbatim>\<open>float\<close> is an IEEE 754 binary64 number: a finite value, one of the two
  infinities, or NaN.  The two zeros, which \<^verbatim>\<open>==\<close> identifies and which nothing below tells
  apart, are the one value \<open>Finite 0\<close>.  The finite values a float can take are the reals
  that \<open>round_double\<close> leaves unchanged; every operation below returns such a value.
\<close>

datatype float = Finite real | PosInf | NegInf | NaN

text \<open>
  The built-in \<^verbatim>\<open>round\<close> with one argument, on a finite value: the nearest integer, a tie
  going to the even neighbour.
\<close>

definition py_round :: "real \<Rightarrow> int" where
  "py_round x =
     (let f = \<lfloor>x\<rfloor>; d = x - of_int f
      in if d < 1 / 2 then f
         else if 1 / 2 < d then f + 1
         else if even f then f else f + 1)"

text \<open>The binary exponent of a positive real: \<open>2 ^ ilog2 x \<le> x < 2 ^ (ilog2 x + 1)\<close>.\<close>

definition ilog2 :: "real \<Rightarrow> int" where
  "ilog2 x = (if 1 \<le> x then bitlen \<lfloor>x\<rfloor> - 1 else - bitlen (\<lceil>1 / x\<rceil> - 1))"

text \<open>\<open>scale2 x e\<close> is \<open>x * 2 ^ e\<close> for an integer \<open>e\<close> of either sign.\<close>

definition scale2 :: "real \<Rightarrow> int \<Rightarrow> real" where
  "scale2 x e = (if 0 \<le> e then x * 2 ^ nat e else x / 2 ^ nat (- e))"

text \<open>
  The exponent of the last place of the binary64 numbers around \<open>x\<close>: 53 significant bits,
  and no exponent below that of the subnormal numbers.
\<close>

definition ulp_exp :: "real \<Rightarrow> int" where
  "ulp_exp x = max (ilog2 \<bar>x\<bar> - 52) (- 1074)"

text \<open>Rounding to the nearest multiple of the last place, ties to the even multiple.\<close>

definition quantize :: "real \<Rightarrow> real" where
  "quantize x = (if x = 0 then 0 else scale2 (of_int (py_round (scale2 x (- ulp_exp x)))) (ulp_exp x))"

text \<open>
  The result of an arithmetic operation whose exact value is \<open>x\<close>: round to nearest, ties
  to even, and overflow to an infinity when the rounded value reaches \<open>2 ^ 1024\<close>.
\<close>

definition overflow_threshold :: real where
  "overflow_threshold = 2 ^ 1024"

definition round_double :: "real \<Rightarrow> float" where
  "round_double x =
     (let v = quantize x
      in if overflow_threshold \<le> v then PosInf
         else if v \<le> - overflow_threshold then NegInf
         else Finite v)"

text \<open>The comparisons \<^verbatim>\<open><\<close> and \<^verbatim>\<open><=\<close>; every comparison with NaN is false.\<close>

fun flt :: "float \<Rightarrow> float \<Rightarrow> bool" where
  "flt (Finite a) (Finite b) = (a < b)"
| "flt (Finite a) PosInf = True"
| "flt NegInf (Finite b) = True"
| "flt NegInf PosInf = True"
| "flt _ _ = False"

definition fle :: "float \<Rightarrow> float \<Rightarrow> bool" where
  "fle a b = (flt a b \<or> (a = b \<and> a \<noteq> NaN))"

fun fneg :: "float \<Rightarrow> float" where
  "fneg (Finite a) = Finite (- a)"
| "fneg PosInf = NegInf"
| "fneg NegInf = PosInf"
| "fneg NaN = NaN"

text \<open>The operators \<^verbatim>\<open>*\<close>, \<^verbatim>\<open>-\<close> and \<^verbatim>\<open>/\<close> on two floats.\<close>

fun fmul :: "float \<Rightarrow> float \<Rightarrow> float" where
  "fmul (Finite a) (Finite b) = round_double (a * b)"
| "fmul NaN _ = NaN"
| "fmul _ NaN = NaN"
| "fmul (Finite a) b = (if a = 0 then NaN else if 0 < a then b else fneg b)"
| "fmul a (Finite b) = (if b = 0 then NaN else if 0 < b then a else fneg a)"
| "fmul a b = (if a = b then PosInf else NegInf)"

fun fsub :: "float \<Rightarrow> float \<Rightarrow> float" where
  "fsub (Finite a) (Finite b) = round_double (a - b)"
| "fsub NaN _ = NaN"
| "fsub _ NaN = NaN"
| "fsub (Finite a) b = fneg b"
| "fsub a (Finite b) = a"
| "fsub a b = (if a = b then NaN else a)"

fun fdiv :: "float \<Rightarrow> float \<Rightarrow> error + float" where
  "fdiv a (Finite b) =
     (if b = 0 then Inl (ZeroDivisionError ''float division by zero'')
      else Inr (case a of
                  Finite x \<Rightarrow> round_double (x / b)
                | NaN \<Rightarrow> NaN
                | _ \<Rightarrow> if 0 < b then a else fneg a))"
| "fdiv NaN _ = Inr NaN"
| "fdiv _ NaN = Inr NaN"
| "fdiv (Finite a) _ = Inr (Finite 0)"
| "fdiv _ _ = Inr NaN"

text \<open>\<^verbatim>\<open>float(n)\<close> for an integer \<open>n\<close>.\<close>

definition float_of_int :: "int \<Rightarrow> error + float" where
  "float_of_int n =
     (case round_double (of_int n) of
        Finite v \<Rightarrow> Inr (Finite v)
      | _ \<Rightarrow> Inl (OverflowError ''int too large to convert to float''))"

text \<open>\<^verbatim>\<open>int(round(x))\<close> for a float \<open>x\<close>.\<close>

definition int_round :: "float \<Rightarrow> error + int" where
  "int_round x =
     (case x of
        Finite v \<Rightarrow> Inr (py_round v)
      | NaN \<Rightarrow> Inl (ValueError ''cannot convert float NaN to integer'')
      | _ \<Rightarrow> Inl (OverflowError ''cannot convert float infinity to integer''))"

text \<open>\<^verbatim>\<open>n / y\<close> and \<^verbatim>\<open>x * n\<close> for an integer \<open>n\<close>: the integer is converted first.\<close>

definition int_div_float :: "int \<Rightarrow> float \<Rightarrow> error + float" where
  "int_div_float n y = (case float_of_int n of Inl e \<Rightarrow> Inl e | Inr x \<Rightarrow> fdiv x y)"


subsection \<open>Data model (domain.py)\<close>

record AnnotationRecord =
  label :: string
  camid :: string
  step_no :: int
  step_name :: string
  start_frame :: int
  end_frame :: int
  total_frames :: int
  start_time :: float
  end_time :: float
  total_time :: float
  time_source :: string
  audio_source :: string
  confidence :: int
  notes_text :: string

record SkillStep =
  number :: int
  name :: string

subsection \<open>Time conversion (timeutils.py)\<close>

definition seconds_to_frames :: "float option \<Rightarrow> float option \<Rightarrow> error + int" where
  "seconds_to_frames seconds fps =
     (let fps = (case fps of None \<Rightarrow> Finite 30 | Some f \<Rightarrow> if fle f (Finite 0) then Finite 30 else f);
          seconds = (case seconds of None \<Rightarrow> Finite 0 | Some s \<Rightarrow> s)
      in int_round (fmul seconds fps))"

definition frames_to_seconds :: "int option \<Rightarrow> float option \<Rightarrow> error + float" where
  "frames_to_seconds frames fps =
     (let fps = (case fps of None \<Rightarrow> Finite 30 | Some f \<Rightarrow> if fle f (Finite 0) then Finite 30 else f);
          frames = (case frames of None \<Rightarrow> 0 | Some n \<Rightarrow> n)
      in int_div_float frames fps)"

subsection \<open>Annotation recompute logic (timeutils.py)\<close>

definition recompute_from_times :: "AnnotationRecord \<Rightarrow> float option \<Rightarrow> error + AnnotationRecord" where
  "recompute_from_times rec fps =
     (let fps = (case fps of None \<Rightarrow> Finite 30 | Some f \<Rightarrow> if fle f (Finite 0) then Finite 30 else f);
          st = start_time rec;
          et = end_time rec;
          st = (if flt st (Finite 0) then Finite 0 else st);
          et = (if flt et (Finite 0) then Finite 0 else et)
      in if flt et st then Inl (ValueError ''end_time must be >= start_time'')
         else
           (case seconds_to_frames (Some st) (Some fps) of
              Inl e \<Rightarrow> Inl e
            | Inr sf \<Rightarrow>
                (case seconds_to_frames (Some et) (Some fps) of
                   Inl e \<Rightarrow> Inl e
                 | Inr ef \<Rightarrow>
                     Inr (rec\<lparr>start_time := st,
                              end_time := et,
                              total_time := fsub et st,
                              start_frame := sf,
                              end_frame := ef,
                              total_frames := max (ef - sf) 0\<rparr>))))"

definition recompute_from_frames :: "AnnotationRecord \<Rightarrow> float option \<Rightarrow> error + AnnotationRecord" where
  "recompute_from_frames rec fps =
     (let fps = (case fps of None \<Rightarrow> Finite 30 | Some f \<Rightarrow> if fle f (Finite 0) then Finite 30 else f);
          sf = start_frame rec;
          ef = end_frame rec;
          sf = (if sf < 0 then 0 else sf);
          ef = (if ef < 0 then 0 else ef)
      in if ef < sf then Inl (ValueError ''end_frame must be >= start_frame'')
         else
           (case frames_to_seconds (Some sf) (Some fps) of
              Inl e \<Rightarrow> Inl e
            | Inr st \<Rightarrow>
                (case frames_to_seconds (Some ef) (Some fps) of
                   Inl e \<Rightarrow> Inl e
                 | Inr et \<Rightarrow>
                     Inr (rec\<lparr>start_frame := sf,
                              end_frame := ef,
                              total_frames := max (ef - sf) 0,
                              start_time := st,
                              end_time := et,
                              total_time := fsub et st\<rparr>))))"

text \<open>The failure the specification calls \<open>InvalidRange\<close> on the time path.\<close>

definition InvalidRange :: error where
  "InvalidRange = ValueError ''end_time must be >= start_time''"

subsection \<open>Table edits (widgets/annotations_table.py)\<close>






subsection \<open>Lane stacking for overlap rendering (timeutils.py)\<close>

record Block =
  idx :: int
  start_ms :: int
  end_ms :: int

definition normalize_block :: "Block \<Rightarrow> Block" where
  "normalize_block b =
     (let s = start_ms b; e = end_ms b
      in if e < s then \<lparr>idx = idx b, start_ms = e, end_ms = s\<rparr>
         else \<lparr>idx = idx b, start_ms = s, end_ms = e\<rparr>)"

definition sort_key_of :: "Block \<Rightarrow> int \<times> int" where
  "sort_key_of x = (start_ms x, end_ms x - start_ms x)"

text \<open>
  The inner loop over the lanes: the block goes to the first lane whose last block ends
  no later than the block starts; \<open>None\<close> when the loop ends with \<open>placed = False\<close>.
  Every lane is created with one block and only grows, so \<open>lane[-1]\<close> is defined
  (lemma \<open>stack_lanes_nonempty\<close>).
\<close>

fun place_in_lanes :: "Block list list \<Rightarrow> Block \<Rightarrow> Block list list option" where
  "place_in_lanes [] b = None"
| "place_in_lanes (lane # lanes) b =
     (if end_ms (last lane) \<le> start_ms b then Some ((lane @ [b]) # lanes)
      else map_option ((#) lane) (place_in_lanes lanes b))"

definition add_block :: "Block list list \<Rightarrow> Block \<Rightarrow> Block list list" where
  "add_block lanes b =
     (case place_in_lanes lanes b of
        Some lanes' \<Rightarrow> lanes'
      | None \<Rightarrow> lanes @ [[b]])"

text \<open>Python's \<^verbatim>\<open>list.sort\<close> is stable, as \<^const>\<open>sort_key\<close> is; tuples compare lexicographically.\<close>

definition stack_blocks_into_lanes :: "Block list \<Rightarrow> Block list list" where
  "stack_blocks_into_lanes blocks =
     (if blocks = [] then []
      else foldl add_block [] (sort_key sort_key_of (map normalize_block blocks)))"

text \<open>The lane an interval index ends up in (the first lane holding a block of that index).\<close>

definition lane_of :: "Block list list \<Rightarrow> int \<Rightarrow> nat option" where
  "lane_of lanes i = map_option fst (find (\<lambda>(n, lane). i \<in> idx ` set lane) (enumerate 0 lanes))"

text \<open>
  The overlap the specification calls genuine, and the shape of a lane: every block has
  its start no later than its end, and each block ends no later than every later one starts.
\<close>

definition genuine_overlap :: "Block \<Rightarrow> Block \<Rightarrow> bool" where
  "genuine_overlap a b = (start_ms b < end_ms a \<and> start_ms a < end_ms b)"

definition well_formed :: "Block \<Rightarrow> bool" where
  "well_formed b = (start_ms b \<le> end_ms b)"

definition chained :: "Block list \<Rightarrow> bool" where
  "chained lane = sorted_wrt (\<lambda>a b. end_ms a \<le> start_ms b) lane"

definition lane_ok :: "Block list \<Rightarrow> bool" where
  "lane_ok lane = (lane \<noteq> [] \<and> list_all well_formed lane \<and> chained lane)"

definition lanes_ok :: "Block list list \<Rightarrow> bool" where
  "lanes_ok lanes = list_all lane_ok lanes"

subsection \<open>Timeline drag editing (widgets/skill_timeline.py)\<close>


datatype mouse_button = LeftButton | RightButton | MiddleButton







subsection \<open>Committing a timeline edit (main_window.py)\<close>

datatype message_box = Warning string string | Information string string


subsection \<open>Finishing a captured step (main_window.py)\<close>

record SessionState =
  session_label :: "string option"
  annotations :: "AnnotationRecord list"
  pending_step :: "SkillStep option"
  pending_camid :: "string option"
  pending_start_ms :: "int option"
  pending_time_source :: "string option"
  pending_audio_source :: "string option"
  pending_color :: "string option"

definition clear_pending :: "SessionState \<Rightarrow> SessionState" where
  "clear_pending st =
     st\<lparr>pending_step := None, pending_camid := None, pending_start_ms := None,
        pending_time_source := None, pending_audio_source := None, pending_color := None\<rparr>"

text \<open>
  The part of the main window that the capture workflow touches: the session state, the
  step label, the four workflow buttons, whether the timeline allows editing, the
  remembered play intent and whether the grid is (asked to be) playing.
\<close>

record MainWindow =
  state :: SessionState
  current_step_label :: string
  btn_start_step :: bool
  btn_confirm_start :: bool
  btn_end_step :: bool
  btn_finish_step :: bool
  allow_edit :: bool
  step_flow_was_playing :: bool
  playing :: bool

text \<open>Python truthiness of an optional string: \<^verbatim>\<open>None\<close> and the empty string are false.\<close>

definition falsy :: "string option \<Rightarrow> bool" where
  "falsy v = (case v of None \<Rightarrow> True | Some t \<Rightarrow> t = [])"

definition py_str :: "string option \<Rightarrow> string" where
  "py_str v = (case v of None \<Rightarrow> ''None'' | Some t \<Rightarrow> t)"

definition resume_if_allowed :: "bool \<Rightarrow> bool \<Rightarrow> MainWindow \<Rightarrow> MainWindow" where
  "resume_if_allowed is_at_end was_playing mw =
     (if \<not> was_playing \<or> is_at_end then mw\<lparr>playing := False\<rparr> else mw\<lparr>playing := True\<rparr>)"

text \<open>
  \<open>_finish_step\<close>. \<open>slider_value\<close> is the position the slider reports, \<open>prompt\<close> the
  answer of the confidence dialog (\<open>None\<close> when it is dismissed), \<open>is_at_end\<close> what
  \<open>_is_at_end\<close> reports, \<open>fps_for\<close> is \<open>VideoGrid.fps_for\<close>.  The result is the window as it
  is left and the message boxes shown, or the exception that leaves the slot; the slot
  changes nothing before the last statement that can raise.  Saving the session to disk and
  repainting are not modelled.
\<close>

definition finish_step ::
  "(string \<Rightarrow> float) \<Rightarrow> bool \<Rightarrow> int \<Rightarrow> (int \<times> string) option \<Rightarrow> MainWindow \<Rightarrow>
   error + MainWindow \<times> message_box list" where
  "finish_step fps_for is_at_end slider_value prompt mw =
     (let st = state mw in
      if pending_start_ms st = None \<or> pending_step st = None \<or> falsy (pending_camid st)
         \<or> falsy (pending_time_source st) \<or> falsy (pending_audio_source st)
      then Inr (mw, [Warning ''Incomplete'' ''Step state incomplete; try again.''])
      else
        (let e_ms = slider_value;
             s_ms = the (pending_start_ms st)
         in if e_ms < s_ms
            then Inr (mw, [Warning ''Invalid range'' ''End time must be after start time.''])
            else
              (case prompt of
                 None \<Rightarrow> Inr (mw, [])
               | Some (conf, nts) \<Rightarrow>
                   (let fps = fps_for (the (pending_time_source st)) in
                    case int_div_float s_ms (Finite 1000) of
                      Inl e \<Rightarrow> Inl e
                    | Inr stime \<Rightarrow>
                   (case int_div_float e_ms (Finite 1000) of
                      Inl e \<Rightarrow> Inl e
                    | Inr etime \<Rightarrow>
                   (case int_round (fmul stime fps) of
                      Inl e \<Rightarrow> Inl e
                    | Inr sframe \<Rightarrow>
                   (case int_round (fmul etime fps) of
                      Inl e \<Rightarrow> Inl e
                    | Inr eframe \<Rightarrow>
                   (let rec = \<lparr>label = py_str (session_label st),
                               camid = the (pending_camid st),
                               step_no = number (the (pending_step st)),
                               step_name = name (the (pending_step st)),
                               start_frame = sframe,
                               end_frame = eframe,
                               total_frames = max (eframe - sframe) 0,
                               start_time = stime,
                               end_time = etime,
                               total_time = fsub etime stime,
                               time_source = the (pending_time_source st),
                               audio_source = the (pending_audio_source st),
                               confidence = conf,
                               notes_text = nts\<rparr>;
                        st = st\<lparr>annotations := annotations st @ [rec]\<rparr>;
                        st = clear_pending st;
                        mw = mw\<lparr>state := st,
                                 current_step_label := ''Current step: None (record saved)'',
                                 btn_start_step := True,
                                 btn_confirm_start := False,
                                 btn_end_step := False,
                                 btn_finish_step := False,
                                 allow_edit := True\<rparr>;
                        mw = resume_if_allowed is_at_end (step_flow_was_playing mw) mw
                    in Inr (mw\<lparr>step_flow_was_playing := False\<rparr>, [])))))))))"

text \<open>The message box the specification calls \<open>InvalidRange\<close> on the capture path.\<close>

definition InvalidRange_warning :: message_box where
  "InvalidRange_warning = Warning ''Invalid range'' ''End time must be after start time.''"

text \<open>
  The capture state \<open>AwaitingConfirmEnd\<close> is the window after \<open>_end_step\<close>: the step,
  the camera ids, the start and both sources are pending, and only Finish is enabled.
\<close>

definition awaiting_confirm_end :: "MainWindow \<Rightarrow> bool" where
  "awaiting_confirm_end mw =
     (pending_start_ms (state mw) \<noteq> None \<and> pending_step (state mw) \<noteq> None
      \<and> \<not> falsy (pending_camid (state mw))
      \<and> \<not> falsy (pending_time_source (state mw))
      \<and> \<not> falsy (pending_audio_source (state mw))
      \<and> \<not> btn_start_step mw \<and> \<not> btn_confirm_start mw
      \<and> \<not> btn_end_step mw \<and> btn_finish_step mw)"

subsection \<open>Colour assignment (domain.py)\<close>

definition SKILL_COLOR_PALETTE_50 :: "string list" where
  "SKILL_COLOR_PALETTE_50 =
     [
      ''#E6194B'', ''#3CB44B'', ''#FFE119'', ''#4363D8'', ''#F58231'',
      ''#911EB4'', ''#46F0F0'', ''#F032E6'', ''#BCF60C'', ''#FABEBE'',
      ''#008080'', ''#E6BEFF'', ''#9A6324'', ''#FFFAC8'', ''#800000'',
      ''#AAFFC3'', ''#808000'', ''#FFD8B1'', ''#000075'', ''#808080'',
      ''#000000'', ''#FF4500'', ''#1E90FF'', ''#32CD32'', ''#FFD700'',
      ''#8A2BE2'', ''#00CED1'', ''#FF1493'', ''#7FFF00'', ''#FFB6C1'',
      ''#20B2AA'', ''#BA55D3'', ''#B8860B'', ''#F0E68C'', ''#A52A2A'',
      ''#2E8B57'', ''#BDB76B'', ''#D2691E'', ''#4169E1'', ''#DC143C'',
      ''#00FA9A'', ''#9400D3'', ''#FF8C00'', ''#2F4F4F'', ''#ADFF2F'',
      ''#C71585'', ''#00BFFF'', ''#228B22'', ''#FF6347'', ''#6A5ACD''
     ]"

record RootConfig =
  root_dir :: string
  skills :: "SkillStep list"
  skill_color_map :: "(int \<times> int) list"

text \<open>
  \<open>skill_color_map\<close> is a Python dict, kept as an association list in insertion order
  and read with \<^const>\<open>map_of\<close>; a key is added only when it is absent. \<open>gen\<close> stands for
  \<open>_generated_color_hex\<close>, a pure function of the generated index computed in
  floating-point colour arithmetic; nothing below depends on the colour it produces.  The
  function mutates \<open>cfg\<close>; the model returns the colour together with the configuration as
  it is left.
\<close>

definition get_skill_color_hex ::
  "(int \<Rightarrow> string) \<Rightarrow> int option \<Rightarrow> RootConfig option \<Rightarrow> string \<times> RootConfig option" where
  "get_skill_color_hex gen step_number cfg =
     (case step_number of
        None \<Rightarrow> (SKILL_COLOR_PALETTE_50 ! 0, cfg)
      | Some step_no_i \<Rightarrow>
          (let palette_n = int (length SKILL_COLOR_PALETTE_50) in
           case cfg of
             None \<Rightarrow> (SKILL_COLOR_PALETTE_50 ! nat (step_no_i mod palette_n), None)
           | Some c \<Rightarrow>
               (let (i, c) =
                      (case map_of (skill_color_map c) step_no_i of
                         Some i \<Rightarrow> (i, c)
                       | None \<Rightarrow>
                           (let used = map snd (skill_color_map c) in
                            case find (\<lambda>i. i \<notin> set used) [0..palette_n - 1] of
                              Some i \<Rightarrow> (i, c\<lparr>skill_color_map := skill_color_map c @ [(step_no_i, i)]\<rparr>)
                            | None \<Rightarrow>
                                (let next_idx = (if used \<noteq> [] then Max (set used) + 1 else palette_n);
                                     next_idx = (if next_idx < palette_n then palette_n else next_idx)
                                 in (next_idx, c\<lparr>skill_color_map := skill_color_map c @ [(step_no_i, next_idx)]\<rparr>))))
                in if i < palette_n then (SKILL_COLOR_PALETTE_50 ! nat (i mod palette_n), Some c)
                   else (gen (i - palette_n), Some c))))"

subsection \<open>End-of-stream masking (widgets/video_grid.py)\<close>













subsection \<open>Example data\<close>

definition example_record :: AnnotationRecord where
  "example_record =
     \<lparr>label = ''session'', camid = ''video-1'', step_no = 1, step_name = ''reach'',
      start_frame = 120, end_frame = 150, total_frames = 30,
      start_time = Finite 4, end_time = Finite 5, total_time = Finite 1,
      time_source = ''video-1'', audio_source = ''video-1'', confidence = 5, notes_text = []\<rparr>"

text \<open>The floats that Python writes \<^verbatim>\<open>1e308\<close> and \<^verbatim>\<open>0.55\<close>.\<close>

definition float_1e308 :: float where
  "float_1e308 = Finite (5010420900022432 * 2 ^ 971)"

definition float_0_55 :: float where
  "float_0_55 = Finite (2476979795053773 / 2 ^ 52)"

text \<open>Blocks for the lane examples.\<close>

definition touching_a :: Block where "touching_a = \<lparr>idx = 0, start_ms = 1000, end_ms = 2000\<rparr>"
definition touching_b :: Block where "touching_b = \<lparr>idx = 1, start_ms = 2000, end_ms = 3500\<rparr>"
definition inverted_a :: Block where "inverted_a = \<lparr>idx = 0, start_ms = 10, end_ms = 5\<rparr>"
definition inverted_b :: Block where "inverted_b = \<lparr>idx = 1, start_ms = 5, end_ms = 20\<rparr>"
definition tie_a :: Block where "tie_a = \<lparr>idx = 0, start_ms = 0, end_ms = 10\<rparr>"
definition tie_b :: Block where "tie_b = \<lparr>idx = 1, start_ms = 0, end_ms = 10\<rparr>"


text \<open>A window in the state \<open>AwaitingConfirmEnd\<close>, with the start captured at 5000 ms.\<close>

definition example_window :: MainWindow where
  "example_window =
     \<lparr>state = \<lparr>session_label = Some ''session'', annotations = [example_record],
               pending_step = Some \<lparr>number = 2, name = ''grasp''\<rparr>,
               pending_camid = Some ''video-1'', pending_start_ms = Some 5000,
               pending_time_source = Some ''video-1'', pending_audio_source = Some ''video-1'',
               pending_color = Some ''#3CB44B''\<rparr>,
      current_step_label = ''Current step: 2 - grasp | Adjust end on timeline if needed, then Finish Step to save.'',
      btn_start_step = False, btn_confirm_start = False, btn_end_step = False,
      btn_finish_step = True, allow_edit = False, step_flow_was_playing = True, playing = False\<rparr>"

text \<open>
  A configuration whose colour map uses every palette index and the generated index 60,
  and an empty one.
\<close>

definition full_config :: RootConfig where
  "full_config =
     \<lparr>root_dir = ''data'', skills = [],
      skill_color_map = map (\<lambda>k. (k + 1, k)) [0..49] @ [(100, 60)]\<rparr>"

definition empty_config :: RootConfig where
  "empty_config = \<lparr>root_dir = ''data'', skills = [], skill_color_map = []\<rparr>"



section \<open>Properties\<close>

lemma py_round_cases: "py_round x = \<lfloor>x\<rfloor> \<or> py_round x = \<lfloor>x\<rfloor> + 1"
  by (simp add: py_round_def Let_def)

lemma py_round_mono:
  assumes "x \<le> y"
  shows "py_round x \<le> py_round y"
proof (cases "\<lfloor>x\<rfloor> < \<lfloor>y\<rfloor>")
  case True
  have "py_round x \<le> \<lfloor>x\<rfloor> + 1"
    using py_round_cases [of x] by auto
  also have "\<dots> \<le> \<lfloor>y\<rfloor>"
    using True by simp
  also have "\<dots> \<le> py_round y"
    using py_round_cases [of y] by auto
  finally show ?thesis .
next
  case False
  moreover have "\<lfloor>x\<rfloor> \<le> \<lfloor>y\<rfloor>"
    using assms by (rule floor_mono)
  ultimately have eq: "\<lfloor>x\<rfloor> = \<lfloor>y\<rfloor>"
    by simp
  have "x - of_int \<lfloor>y\<rfloor> \<le> y - of_int \<lfloor>y\<rfloor>"
    using assms by simp
  then show ?thesis
    by (auto simp: py_round_def Let_def eq)
qed

lemma py_round_of_int: "py_round (of_int n) = n"
  by (simp add: py_round_def)

lemma py_round_zero: "py_round 0 = 0"
  by (simp add: py_round_def)

lemma py_round_nonneg: "0 \<le> x \<Longrightarrow> 0 \<le> py_round x"
  using py_round_mono [of 0 x] by (simp add: py_round_zero)

lemma powi_nat: "0 \<le> k \<Longrightarrow> (2::real) powi k = 2 ^ nat k"
  by (simp add: power_int_def)

lemma powi_neg: "(2::real) powi (- k) = 1 / 2 powi k"
  by (simp add: power_int_minus inverse_eq_divide)

lemma powi_pos: "0 < (2::real) powi k"
  by simp

lemma powi_less_D: "(2::real) powi m < 2 powi n \<Longrightarrow> m < n"
proof (rule ccontr)
  assume a: "(2::real) powi m < 2 powi n" and "\<not> m < n"
  then have "n \<le> m" by simp
  then have "(2::real) powi n \<le> 2 powi m"
    by (intro power_int_increasing) simp_all
  then show False using a by simp
qed

lemma powi_mono: "m \<le> n \<Longrightarrow> (2::real) powi m \<le> 2 powi n"
  by (intro power_int_increasing) simp_all

lemma scale2_eq: "scale2 x e = x * 2 powi e"
proof (cases "0 \<le> e")
  case True
  then show ?thesis by (simp add: scale2_def powi_nat)
next
  case False
  then have "0 \<le> - e" by simp
  then have "(2::real) powi (- e) = 2 ^ nat (- e)" by (rule powi_nat)
  then have "(2::real) powi e = 1 / 2 ^ nat (- e)"
    using powi_neg [of "- e"] by simp
  then show ?thesis using False by (simp add: scale2_def)
qed

lemma ilog2_bounds:
  assumes "0 < x"
  shows "2 powi ilog2 x \<le> x" and "x < 2 powi (ilog2 x + 1)"
proof -
  have "2 powi ilog2 x \<le> x \<and> x < 2 powi (ilog2 x + 1)"
  proof (cases "1 \<le> x")
    case True
    let ?n = "\<lfloor>x\<rfloor>"
    have n: "0 < ?n" using True by simp
    let ?b = "bitlen ?n"
    have b1: "1 \<le> ?b" using n by (simp add: bitlen_alt_def)
    from bitlen_bounds [OF n] have lo: "2 ^ nat (?b - 1) \<le> ?n" and hi: "?n < 2 ^ nat ?b"
      by simp_all
    have "real_of_int (2 ^ nat (?b - 1)) \<le> real_of_int ?n"
      using lo by (simp only: of_int_le_iff)
    moreover have "real_of_int ?n \<le> x" by (rule of_int_floor_le)
    ultimately have "real_of_int (2 ^ nat (?b - 1)) \<le> x"
      by (rule order_trans)
    then have 1: "(2::real) ^ nat (?b - 1) \<le> x"
      by simp
    have "?n + 1 \<le> 2 ^ nat ?b" using hi by simp
    then have "real_of_int (?n + 1) \<le> real_of_int (2 ^ nat ?b)"
      by (simp only: of_int_le_iff)
    moreover have "x < real_of_int (?n + 1)"
      using floor_correct [of x] by simp
    ultimately have "x < real_of_int (2 ^ nat ?b)"
      by (rule less_le_trans [rotated])
    then have 2: "x < (2::real) ^ nat ?b"
      by simp
    have e: "ilog2 x = ?b - 1" using True by (simp add: ilog2_def)
    have p1: "(2::real) powi (?b - 1) = 2 ^ nat (?b - 1)"
      using b1 by (intro powi_nat) simp
    have p2: "(2::real) powi (?b - 1 + 1) = 2 ^ nat ?b"
      using b1 by (simp add: powi_nat)
    show ?thesis
      using 1 2 by (simp only: e p1 p2)
  next
    case False
    let ?y = "1 / x"
    have y: "1 < ?y" using False assms by simp
    let ?n = "\<lceil>?y\<rceil>"
    have n: "0 < ?n - 1" using y by (simp add: less_ceiling_iff)
    let ?b = "bitlen (?n - 1)"
    have b1: "1 \<le> ?b" using n by (simp add: bitlen_alt_def)
    from bitlen_bounds [OF n] have lo: "2 ^ nat (?b - 1) \<le> ?n - 1" and hi: "?n - 1 < 2 ^ nat ?b"
      by simp_all
    have "?n \<le> 2 ^ nat ?b" using hi by simp
    then have "real_of_int ?n \<le> real_of_int (2 ^ nat ?b)"
      by (simp only: of_int_le_iff)
    moreover have "?y \<le> real_of_int ?n" by (rule le_of_int_ceiling)
    ultimately have "?y \<le> real_of_int (2 ^ nat ?b)"
      by (rule order_trans [rotated])
    then have "?y \<le> (2::real) ^ nat ?b"
      by simp
    then have 1: "1 / 2 ^ nat ?b \<le> x"
      using assms by (simp add: field_simps)
    have "real_of_int (2 ^ nat (?b - 1)) \<le> real_of_int (?n - 1)"
      using lo by (simp only: of_int_le_iff)
    moreover have "real_of_int (?n - 1) < ?y"
      using ceiling_correct [of ?y] by simp
    ultimately have "real_of_int (2 ^ nat (?b - 1)) < ?y"
      by (rule le_less_trans)
    then have "(2::real) ^ nat (?b - 1) < ?y"
      by simp
    then have 2: "x < 1 / 2 ^ nat (?b - 1)"
      using assms by (simp add: field_simps)
    have e: "ilog2 x = - ?b" using False by (simp add: ilog2_def)
    have p1: "(2::real) powi (- ?b) = 1 / 2 ^ nat ?b"
      using b1 powi_neg [of ?b] by (simp add: powi_nat)
    have "(2::real) powi (- (?b - 1)) = 1 / 2 ^ nat (?b - 1)"
      using b1 powi_neg [of "?b - 1"] by (simp add: powi_nat)
    then have p2: "(2::real) powi (- ?b + 1) = 1 / 2 ^ nat (?b - 1)"
      by simp
    show ?thesis
      using 1 2 by (simp only: e p1 p2)
  qed
  then show "2 powi ilog2 x \<le> x" and "x < 2 powi (ilog2 x + 1)" by simp_all
qed

lemma ilog2_unique:
  assumes "2 powi k \<le> x" "x < 2 powi (k + 1)"
  shows "ilog2 x = k"
proof -
  have "0 < (2::real) powi k" by simp
  then have x: "0 < x"
    using assms(1) by linarith
  note b = ilog2_bounds [OF x]
  have "(2::real) powi ilog2 x < 2 powi (k + 1)"
    using b(1) assms(2) by linarith
  then have 1: "ilog2 x < k + 1"
    by (rule powi_less_D)
  have "(2::real) powi k < 2 powi (ilog2 x + 1)"
    using b(2) assms(1) by linarith
  then have 2: "k < ilog2 x + 1"
    by (rule powi_less_D)
  from 1 2 show ?thesis by simp
qed

lemma ilog2_mono:
  assumes "0 < x" "x \<le> y"
  shows "ilog2 x \<le> ilog2 y"
proof -
  have y: "0 < y" using assms by simp
  have "(2::real) powi ilog2 x < 2 powi (ilog2 y + 1)"
    using ilog2_bounds(1) [OF assms(1)] ilog2_bounds(2) [OF y] assms(2) by linarith
  then have "ilog2 x < ilog2 y + 1"
    by (rule powi_less_D)
  then show ?thesis by simp
qed


lemma ulp_exp_ge: "- 1074 \<le> ulp_exp x" and ulp_exp_ge_ilog2: "ilog2 \<bar>x\<bar> - 52 \<le> ulp_exp x"
  by (simp_all add: ulp_exp_def)

lemma ulp_exp_mono:
  assumes "0 < x" "x \<le> y"
  shows "ulp_exp x \<le> ulp_exp y"
proof -
  have "ilog2 \<bar>x\<bar> \<le> ilog2 \<bar>y\<bar>"
    using assms by (intro ilog2_mono) simp_all
  then show ?thesis by (simp add: ulp_exp_def)
qed

lemma quantize_eq:
  "x \<noteq> 0 \<Longrightarrow> quantize x = of_int (py_round (x * 2 powi (- ulp_exp x))) * 2 powi ulp_exp x"
  by (simp add: quantize_def scale2_eq)

lemma quantize_zero: "quantize 0 = 0"
  by (simp add: quantize_def)

lemma quantize_nonneg:
  assumes "0 \<le> x"
  shows "0 \<le> quantize x"
proof (cases "x = 0")
  case True
  then show ?thesis by (simp add: quantize_zero)
next
  case False
  have "0 \<le> x * 2 powi (- ulp_exp x)"
    using assms by simp
  then have "0 \<le> py_round (x * 2 powi (- ulp_exp x))"
    by (rule py_round_nonneg)
  then show ?thesis
    using False by (simp add: quantize_eq)
qed

lemma scaled_less:
  assumes "0 < x"
  shows "x * 2 powi (- ulp_exp x) < 2 powi 53"
proof -
  have "x < 2 powi (ilog2 x + 1)"
    using assms by (rule ilog2_bounds)
  also have "\<dots> \<le> 2 powi (ulp_exp x + 53)"
    using ulp_exp_ge_ilog2 [of x] assms by (intro powi_mono) simp
  also have "\<dots> = 2 powi ulp_exp x * 2 powi 53"
    by (simp add: power_int_add)
  finally have "x < 2 powi ulp_exp x * 2 powi 53" .
  then have "x * (1 / 2 powi ulp_exp x) < 2 powi 53"
    by (simp add: field_simps)
  then show ?thesis
    by (simp only: powi_neg)
qed

lemma py_round_scaled_le:
  assumes "0 < x"
  shows "py_round (x * 2 powi (- ulp_exp x)) \<le> 2 ^ 53"
proof -
  have "x * 2 powi (- ulp_exp x) \<le> real_of_int (2 ^ 53)"
    using scaled_less [OF assms] by simp
  then have "py_round (x * 2 powi (- ulp_exp x)) \<le> py_round (real_of_int (2 ^ 53))"
    by (rule py_round_mono)
  then show ?thesis
    by (simp only: py_round_of_int)
qed

lemma quantize_upper:
  assumes "0 < x"
  shows "quantize x \<le> 2 powi (ulp_exp x + 53)"
proof -
  have "real_of_int (py_round (x * 2 powi (- ulp_exp x))) \<le> real_of_int (2 ^ 53)"
    using py_round_scaled_le [OF assms] by (simp only: of_int_le_iff)
  then have "real_of_int (py_round (x * 2 powi (- ulp_exp x))) \<le> 2 powi 53"
    by simp
  then have "real_of_int (py_round (x * 2 powi (- ulp_exp x))) * 2 powi ulp_exp x
      \<le> 2 powi 53 * 2 powi ulp_exp x"
    by (intro mult_right_mono) simp_all
  also have "\<dots> = 2 powi (ulp_exp x + 53)"
    by (simp add: power_int_add)
  finally show ?thesis
    using assms by (simp add: quantize_eq)
qed

lemma quantize_lower:
  assumes "0 < x" "ulp_exp x = ilog2 x - 52"
  shows "2 powi (ulp_exp x + 52) \<le> quantize x"
proof -
  have "2 powi (ulp_exp x + 52) \<le> x"
    using ilog2_bounds(1) [OF assms(1)] assms(2) by simp
  then have "2 powi ulp_exp x * 2 powi 52 \<le> x"
    by (simp add: power_int_add)
  then have "2 powi 52 \<le> x * (1 / 2 powi ulp_exp x)"
    by (simp add: field_simps)
  then have "real_of_int (2 ^ 52) \<le> x * 2 powi (- ulp_exp x)"
    by (simp only: powi_neg) simp
  then have "py_round (real_of_int (2 ^ 52)) \<le> py_round (x * 2 powi (- ulp_exp x))"
    by (rule py_round_mono)
  then have "2 ^ 52 \<le> py_round (x * 2 powi (- ulp_exp x))"
    by (simp only: py_round_of_int)
  then have "real_of_int (2 ^ 52) \<le> real_of_int (py_round (x * 2 powi (- ulp_exp x)))"
    by (simp only: of_int_le_iff)
  then have "2 powi 52 \<le> real_of_int (py_round (x * 2 powi (- ulp_exp x)))"
    by simp
  then have a: "2 powi 52 * 2 powi ulp_exp x
      \<le> real_of_int (py_round (x * 2 powi (- ulp_exp x))) * 2 powi ulp_exp x"
    by (intro mult_right_mono) simp_all
  have b: "2 powi 52 * 2 powi ulp_exp x = (2::real) powi (ulp_exp x + 52)"
    using power_int_add [of "2::real" 52 "ulp_exp x"] by (simp add: add.commute)
  have q: "quantize x = real_of_int (py_round (x * 2 powi (- ulp_exp x))) * 2 powi ulp_exp x"
    using assms(1) by (intro quantize_eq) simp
  show ?thesis
    using a by (simp only: b q)
qed

lemma quantize_mono:
  assumes "0 \<le> x" "x \<le> y"
  shows "quantize x \<le> quantize y"
proof (cases "x = 0")
  case True
  then show ?thesis
    using assms quantize_nonneg [of y] by (simp add: quantize_zero)
next
  case False
  then have x: "0 < x" using assms by simp
  then have y: "0 < y" using assms by simp
  have le: "ulp_exp x \<le> ulp_exp y"
    using x assms(2) by (rule ulp_exp_mono)
  show ?thesis
  proof (cases "ulp_exp x = ulp_exp y")
    case True
    have "x * 2 powi (- ulp_exp y) \<le> y * 2 powi (- ulp_exp y)"
      using assms(2) by (intro mult_right_mono) simp_all
    then have "py_round (x * 2 powi (- ulp_exp y)) \<le> py_round (y * 2 powi (- ulp_exp y))"
      by (rule py_round_mono)
    then have "real_of_int (py_round (x * 2 powi (- ulp_exp y)))
        \<le> real_of_int (py_round (y * 2 powi (- ulp_exp y)))"
      by (simp only: of_int_le_iff)
    then have "real_of_int (py_round (x * 2 powi (- ulp_exp y))) * 2 powi ulp_exp y
        \<le> real_of_int (py_round (y * 2 powi (- ulp_exp y))) * 2 powi ulp_exp y"
      by (intro mult_right_mono) simp_all
    then show ?thesis
      using x y True by (simp add: quantize_eq)
  next
    case neq: False
    then have lt: "ulp_exp x < ulp_exp y" using le by simp
    then have "- 1074 < ulp_exp y" using ulp_exp_ge [of x] by simp
    then have ey: "ulp_exp y = ilog2 y - 52"
      using y by (simp add: ulp_exp_def max_def split: if_splits)
    have "quantize x \<le> 2 powi (ulp_exp x + 53)"
      using x by (rule quantize_upper)
    also have "\<dots> \<le> 2 powi (ulp_exp y + 52)"
      using lt by (intro powi_mono) simp
    also have "\<dots> \<le> quantize y"
      using y ey by (rule quantize_lower)
    finally show ?thesis .
  qed
qed

lemma quantize_grid:
  assumes "2 ^ 52 \<le> m" "m < 2 ^ 53" "- 1074 \<le> e"
  shows "quantize (real_of_int m * 2 powi e) = real_of_int m * 2 powi e"
proof -
  let ?x = "real_of_int m * 2 powi e"
  have m0: "0 < m"
    using assms(1) by (meson less_le_trans zero_less_numeral zero_less_power)
  then have x: "0 < ?x" by simp
  have "real_of_int (2 ^ 52) \<le> real_of_int m"
    using assms(1) by (simp only: of_int_le_iff)
  then have "2 powi 52 * 2 powi e \<le> ?x"
    by (intro mult_right_mono) simp_all
  then have lo: "2 powi (e + 52) \<le> ?x"
    by (simp add: power_int_add mult.commute)
  have "real_of_int m < real_of_int (2 ^ 53)"
    using assms(2) by (simp only: of_int_less_iff)
  then have "?x < 2 powi 53 * 2 powi e"
    by (intro mult_strict_right_mono) simp_all
  then have hi: "?x < 2 powi (e + 52 + 1)"
    by (simp add: power_int_add mult.commute)
  have "ilog2 ?x = e + 52"
    using lo hi by (rule ilog2_unique)
  then have u: "ulp_exp ?x = e"
    using x assms(3) by (simp add: ulp_exp_def)
  have "?x * 2 powi (- e) = real_of_int m * (2 powi e * 2 powi (- e))"
    by simp
  also have "2 powi e * 2 powi (- e) = (1::real)"
    by (simp add: powi_neg)
  finally have "?x * 2 powi (- e) = real_of_int m" by simp
  then have r: "py_round (?x * 2 powi (- e)) = m"
    by (simp only: py_round_of_int)
  have "?x \<noteq> 0" using x by (rule less_imp_neq [THEN not_sym])
  then have q: "quantize ?x = real_of_int (py_round (?x * 2 powi (- ulp_exp ?x))) * 2 powi ulp_exp ?x"
    by (rule quantize_eq)
  show ?thesis
    by (simp only: q u r)
qed

lemma quantize_below_top:
  assumes "0 \<le> x" "quantize x < 2 powi 1024"
  shows "quantize x \<le> (2 ^ 53 - 1) * 2 powi 971"
proof (cases "x = 0")
  case True
  then show ?thesis by (simp add: quantize_zero)
next
  case False
  then have x: "0 < x" using assms by simp
  let ?e = "ulp_exp x"
  let ?m = "py_round (x * 2 powi (- ?e))"
  have q: "quantize x = real_of_int ?m * 2 powi ?e"
    using False by (rule quantize_eq)
  have m53: "?m \<le> 2 ^ 53"
    using x by (rule py_round_scaled_le)
  show ?thesis
  proof (cases "?e \<le> 970")
    case True
    have "real_of_int ?m \<le> real_of_int (2 ^ 53)"
      using m53 by (simp only: of_int_le_iff)
    then have "real_of_int ?m \<le> 2 powi 53" by simp
    then have "real_of_int ?m * 2 powi ?e \<le> 2 powi 53 * 2 powi ?e"
      by (intro mult_right_mono) simp_all
    also have "\<dots> = 2 powi (?e + 53)"
      by (simp add: power_int_add)
    also have "\<dots> \<le> 2 powi 1023"
      using True by (intro powi_mono) simp
    also have "\<dots> = 2 powi 52 * 2 powi 971"
      using power_int_add [of "2::real" 52 971] by simp
    also have "\<dots> \<le> (2 ^ 53 - 1) * 2 powi 971"
      by (intro mult_right_mono) simp_all
    finally show ?thesis by (simp only: q)
  next
    case False
    then have e: "971 \<le> ?e" by simp
    let ?N = "?m * 2 ^ nat (?e - 971)"
    have "real_of_int ?N = real_of_int ?m * 2 powi (?e - 971)"
      using e by (simp add: powi_nat)
    then have "real_of_int ?N * 2 powi 971 = real_of_int ?m * (2 powi (?e - 971) * 2 powi 971)"
      by simp
    also have "2 powi (?e - 971) * 2 powi 971 = (2::real) powi ?e"
      using power_int_add [of "2::real" "?e - 971" 971] by simp
    finally have N: "real_of_int ?N * 2 powi 971 = quantize x"
      by (simp only: q)
    have "real_of_int ?N * 2 powi 971 < 2 powi 1024"
      using assms(2) by (simp only: N)
    also have "\<dots> = 2 powi 53 * 2 powi 971"
      using power_int_add [of "2::real" 53 971] by simp
    finally have "real_of_int ?N < 2 powi 53"
      by (simp only: mult_less_cancel_right) simp
    then have "real_of_int ?N < real_of_int (2 ^ 53)" by simp
    then have "?N < 2 ^ 53"
      by (simp only: of_int_less_iff)
    then have "?N \<le> 2 ^ 53 - 1" by simp
    then have "real_of_int ?N \<le> real_of_int (2 ^ 53 - 1)"
      by (simp only: of_int_le_iff)
    then have "real_of_int ?N * 2 powi 971 \<le> real_of_int (2 ^ 53 - 1) * 2 powi 971"
      by (intro mult_right_mono) simp_all
    then show ?thesis
      by (simp only: N) simp
  qed
qed

subsection \<open>Rounding to binary64\<close>

lemma quantize_eval:
  assumes "2 powi k \<le> \<bar>x\<bar>" "\<bar>x\<bar> < 2 powi (k + 1)"
  shows "quantize x =
    scale2 (of_int (py_round (scale2 x (- max (k - 52) (- 1074))))) (max (k - 52) (- 1074))"
proof -
  have "ilog2 \<bar>x\<bar> = k"
    using assms by (rule ilog2_unique)
  moreover have "0 < \<bar>x\<bar>"
    using assms(1) powi_pos [of k] by linarith
  then have "x \<noteq> 0" by simp
  ultimately show ?thesis
    by (simp add: quantize_def ulp_exp_def)
qed

lemma float_1e308_literal: "round_double (10 ^ 308) = float_1e308"
proof -
  have "quantize (10 ^ 308) = 5010420900022432 * 2 ^ 971"
    by (subst quantize_eval [where k = 1023]) (simp_all add: scale2_def py_round_def)
  then show ?thesis
    by (simp add: round_double_def overflow_threshold_def float_1e308_def)
qed

lemma float_0_55_literal: "round_double (55 / 100) = float_0_55"
proof -
  have "quantize (55 / 100) = 2476979795053773 / 2 ^ 52"
    by (subst quantize_eval [where k = "- 1"]) (simp_all add: scale2_def py_round_def)
  then show ?thesis
    by (simp add: round_double_def overflow_threshold_def float_0_55_def)
qed

lemma fmul_1e308_30: "fmul float_1e308 (Finite 30) = PosInf"
proof -
  have "quantize (5010420900022432 * 2 ^ 971 * 30) = 150312627000672960 * 2 ^ 971"
    by (subst quantize_eval [where k = 1028]) (simp_all add: scale2_def py_round_def)
  then show ?thesis
    by (simp add: round_double_def overflow_threshold_def float_1e308_def)
qed

lemma fmul_0_55_30: "fmul float_0_55 (Finite 30) = Finite (33 / 2)"
proof -
  have "quantize (2476979795053773 / 2 ^ 52 * 30) = 33 / 2"
    by (subst quantize_eval [where k = 4]) (simp_all add: scale2_def py_round_def)
  then show ?thesis
    by (simp add: round_double_def overflow_threshold_def float_0_55_def)
qed

lemma threshold_powi: "overflow_threshold = 2 powi 1024"
  by (simp add: overflow_threshold_def)

lemma threshold_pos: "0 < overflow_threshold"
  by (simp add: overflow_threshold_def)

lemma round_double_nonneg:
  assumes "0 \<le> x"
  shows "round_double x = PosInf \<or>
         (round_double x = Finite (quantize x) \<and> 0 \<le> quantize x \<and> quantize x < overflow_threshold)"
proof -
  have "0 \<le> quantize x" using assms by (rule quantize_nonneg)
  moreover from this have "\<not> quantize x \<le> - overflow_threshold"
    using threshold_pos by linarith
  ultimately show ?thesis
    by (simp add: round_double_def Let_def)
qed

lemma round_double_zero: "round_double 0 = Finite 0"
  using threshold_pos by (simp add: round_double_def quantize_zero)

lemma round_double_FiniteD:
  assumes "0 \<le> x" "round_double x = Finite v"
  shows "v = quantize x" "0 \<le> v" "v < overflow_threshold"
  using round_double_nonneg [OF assms(1)] assms(2) by auto

lemma round_double_not_PosInf:
  assumes "0 \<le> x" "round_double x \<noteq> PosInf"
  shows "round_double x = Finite (quantize x)" "0 \<le> quantize x" "quantize x < overflow_threshold"
  using round_double_nonneg [OF assms(1)] assms(2) by auto

lemma round_double_mono_finite:
  assumes "0 \<le> x" "x \<le> y" "round_double y = Finite vy"
  shows "round_double x = Finite (quantize x)" and "0 \<le> quantize x" and "quantize x \<le> vy"
proof -
  have y: "0 \<le> y" using assms(1,2) by simp
  note d = round_double_FiniteD [OF y assms(3)]
  have le: "quantize x \<le> quantize y"
    using assms(1,2) by (rule quantize_mono)
  then show "quantize x \<le> vy" by (simp only: d(1))
  have "quantize x < overflow_threshold"
    using le d(1,3) by linarith
  then show "round_double x = Finite (quantize x)"
    using round_double_nonneg [OF assms(1)] by (auto simp: round_double_def Let_def)
  show "0 \<le> quantize x" using assms(1) by (rule quantize_nonneg)
qed

lemma round_double_mono_PosInf:
  assumes "0 \<le> x" "x \<le> y" "round_double x = PosInf"
  shows "round_double y = PosInf"
proof (rule ccontr)
  assume "round_double y \<noteq> PosInf"
  moreover have "0 \<le> y" using assms(1,2) by simp
  ultimately have "round_double y = Finite (quantize y)"
    by (rule round_double_not_PosInf(1) [rotated])
  from round_double_mono_finite(1) [OF assms(1,2) this] assms(3) show False by simp
qed

lemma double_max_less: "(2 ^ 53 - 1) * 2 powi 971 < overflow_threshold"
proof -
  have "((2::real) ^ 53 - 1) * 2 powi 971 < 2 powi 53 * 2 powi 971"
    by (intro mult_strict_right_mono) simp_all
  also have "\<dots> = 2 powi 1024"
    using power_int_add [of "2::real" 53 971] by simp
  finally show ?thesis by (simp only: threshold_powi)
qed

lemma float_of_int_py_round:
  assumes "0 \<le> x" "round_double x = Finite v"
  shows "\<exists>w. float_of_int (py_round v) = Inr (Finite w)"
proof -
  note d = round_double_FiniteD [OF assms]
  let ?M = "(2 ^ 53 - 1) * 2 ^ 971 :: int"
  have M: "real_of_int ?M = (2 ^ 53 - 1) * 2 powi 971"
    using powi_nat [of 971] by simp
  have "quantize x < 2 powi 1024"
    using d(1,3) by (simp only: threshold_powi)
  then have "quantize x \<le> (2 ^ 53 - 1) * 2 powi 971"
    using assms(1) by (intro quantize_below_top)
  then have "v \<le> real_of_int ?M"
    by (simp only: d(1) M)
  then have "py_round v \<le> py_round (real_of_int ?M)"
    by (rule py_round_mono)
  then have "py_round v \<le> ?M"
    by (simp only: py_round_of_int)
  then have le: "real_of_int (py_round v) \<le> real_of_int ?M"
    by (simp only: of_int_le_iff)
  have n0: "0 \<le> real_of_int (py_round v)"
    using d(2) by (simp add: py_round_nonneg)
  have "quantize (real_of_int (2 ^ 53 - 1) * 2 powi 971) = real_of_int (2 ^ 53 - 1) * 2 powi 971"
    by (rule quantize_grid) simp_all
  then have g: "quantize ((2 ^ 53 - 1) * 2 powi 971) = (2 ^ 53 - 1) * 2 powi 971"
    by simp
  have "quantize (real_of_int (py_round v)) \<le> quantize ((2 ^ 53 - 1) * 2 powi 971)"
    using n0 le unfolding M by (rule quantize_mono)
  also have "\<dots> < overflow_threshold"
    unfolding g by (rule double_max_less)
  finally have "quantize (real_of_int (py_round v)) < overflow_threshold" .
  then have "round_double (real_of_int (py_round v)) = Finite (quantize (real_of_int (py_round v)))"
    using round_double_nonneg [OF n0] by (auto simp: round_double_def Let_def)
  then show ?thesis
    by (simp add: float_of_int_def)
qed

lemma fps_positive: "0 < f \<Longrightarrow> \<not> fle (Finite f) (Finite 0)"
  by (simp add: fle_def)

lemma clamp_finite: "(if flt (Finite s) (Finite 0) then Finite 0 else Finite s) = Finite (max s 0)"
  by (simp add: max_def)

lemma seconds_to_frames_finite:
  assumes "0 < f"
  shows "seconds_to_frames (Some (Finite s)) (Some (Finite f)) = int_round (round_double (s * f))"
  using assms by (simp add: seconds_to_frames_def fle_def)

lemma recompute_from_times_finite:
  assumes "start_time rec = Finite s" "end_time rec = Finite e" "0 < f"
  shows "recompute_from_times rec (Some (Finite f)) =
     (if max e 0 < max s 0 then Inl (ValueError ''end_time must be >= start_time'')
      else
        (case int_round (round_double (max s 0 * f)) of
           Inl err \<Rightarrow> Inl err
         | Inr sf \<Rightarrow>
             (case int_round (round_double (max e 0 * f)) of
                Inl err \<Rightarrow> Inl err
              | Inr ef \<Rightarrow>
                  Inr (rec\<lparr>start_time := Finite (max s 0),
                           end_time := Finite (max e 0),
                           total_time := fsub (Finite (max e 0)) (Finite (max s 0)),
                           start_frame := sf,
                           end_frame := ef,
                           total_frames := max (ef - sf) 0\<rparr>))))"
proof -
  have f: "(if fle (Finite f) (Finite 0) then Finite 30 else Finite f) = Finite f"
    using assms(3) by (simp add: fle_def)
  show ?thesis
    unfolding recompute_from_times_def assms(1,2) Let_def option.case f clamp_finite
      seconds_to_frames_finite [OF assms(3)]
    by simp
qed

lemma round_double_of_int:
  assumes "0 \<le> n" "n < 2 ^ 53"
  shows "round_double (real_of_int n) = Finite (real_of_int n)"
proof (cases "n = 0")
  case True
  then show ?thesis by (simp add: round_double_zero)
next
  case False
  then have n: "0 < n" using assms(1) by simp
  let ?b = "bitlen n"
  have b1: "1 \<le> ?b" using n by (simp add: bitlen_alt_def)
  from bitlen_bounds [OF n] have lo: "2 ^ nat (?b - 1) \<le> n" and hi: "n < 2 ^ nat ?b"
    by simp_all
  have "(2::int) ^ nat (?b - 1) < 2 ^ 53"
    using lo assms(2) by linarith
  then have "nat (?b - 1) < 53"
    by (simp only: power_strict_increasing_iff [of "2::int"])
  then have b53: "?b \<le> 53" by simp
  define j where "j = nat (53 - ?b)"
  have e1: "nat (?b - 1) + j = 52" and e2: "nat ?b + j = 53"
    using b1 b53 by (simp_all add: j_def)
  have "(2::int) ^ 52 = 2 ^ nat (?b - 1) * 2 ^ j"
    by (simp only: e1 [symmetric] power_add)
  also have "\<dots> \<le> n * 2 ^ j"
    using lo by (intro mult_right_mono) simp_all
  finally have m1: "2 ^ 52 \<le> n * 2 ^ j" .
  have "n * 2 ^ j < 2 ^ nat ?b * 2 ^ j"
    using hi by (intro mult_strict_right_mono) simp_all
  also have "\<dots> = 2 ^ 53"
    by (simp only: e2 [symmetric] power_add)
  finally have m2: "n * 2 ^ j < 2 ^ 53" .
  have j: "- 1074 \<le> - int j"
    using b1 by (simp add: j_def)
  have g: "quantize (real_of_int (n * 2 ^ j) * 2 powi (- int j)) = real_of_int (n * 2 ^ j) * 2 powi (- int j)"
    using m1 m2 j by (rule quantize_grid)
  have "real_of_int (n * 2 ^ j) * 2 powi (- int j) = real_of_int n * (2 ^ j * (1 / 2 ^ j))"
    by (simp add: powi_neg)
  then have v: "real_of_int (n * 2 ^ j) * 2 powi (- int j) = real_of_int n"
    by simp
  have q: "quantize (real_of_int n) = real_of_int n"
    using g by (simp only: v)
  have "real_of_int n < real_of_int (2 ^ 53)"
    using assms(2) by (simp only: of_int_less_iff)
  also have "\<dots> = 2 powi 53" by simp
  also have "\<dots> \<le> 2 powi 1024" by (intro powi_mono) simp
  finally have "real_of_int n < overflow_threshold"
    by (simp only: threshold_powi)
  moreover have "0 \<le> real_of_int n" using assms(1) by simp
  ultimately show ?thesis
    using threshold_pos by (simp add: round_double_def q)
qed

lemma int_round_cases:
  "int_round x = Inl e \<Longrightarrow>
     e = ValueError ''cannot convert float NaN to integer'' \<or>
     e = OverflowError ''cannot convert float infinity to integer''"
  by (auto simp: int_round_def split: float.splits)

lemma seconds_to_frames_not_InvalidRange: "seconds_to_frames a b \<noteq> Inl InvalidRange"
proof
  assume "seconds_to_frames a b = Inl InvalidRange"
  then obtain x where "int_round x = Inl InvalidRange"
    by (auto simp: seconds_to_frames_def Let_def)
  from int_round_cases [OF this] show False
    by (simp add: InvalidRange_def)
qed

subsection \<open>Recomputing frames from times\<close>

lemma recompute_from_times_unfold:
  assumes "start_time rec = Finite s" "end_time rec = Finite e"
  shows "recompute_from_times rec fps =
     (let fps' = (case fps of None \<Rightarrow> Finite 30 | Some f \<Rightarrow> if fle f (Finite 0) then Finite 30 else f)
      in if max e 0 < max s 0 then Inl InvalidRange
         else
           (case seconds_to_frames (Some (Finite (max s 0))) (Some fps') of
              Inl err \<Rightarrow> Inl err
            | Inr sf \<Rightarrow>
                (case seconds_to_frames (Some (Finite (max e 0))) (Some fps') of
                   Inl err \<Rightarrow> Inl err
                 | Inr ef \<Rightarrow>
                     Inr (rec\<lparr>start_time := Finite (max s 0),
                              end_time := Finite (max e 0),
                              total_time := fsub (Finite (max e 0)) (Finite (max s 0)),
                              start_frame := sf,
                              end_frame := ef,
                              total_frames := max (ef - sf) 0\<rparr>))))"
  unfolding recompute_from_times_def assms Let_def clamp_finite InvalidRange_def
  by simp

lemma recompute_from_times_inverted:
  assumes "start_time rec = Finite s" "end_time rec = Finite e" "max e 0 < max s 0"
  shows "recompute_from_times rec fps = Inl InvalidRange"
  unfolding recompute_from_times_unfold [OF assms(1,2)] Let_def if_P [OF assms(3)]
  by (rule refl)

lemma recompute_from_times_overflow:
  assumes "start_time rec = Finite s" "end_time rec = Finite e" "0 < f"
    and "\<not> max e 0 < max s 0" "fmul (Finite (max e 0)) (Finite f) = PosInf"
  shows "recompute_from_times rec (Some (Finite f)) =
           Inl (OverflowError ''cannot convert float infinity to integer'')"
proof -
  note R = recompute_from_times_finite [OF assms(1-3)]
  have s0: "0 \<le> max s 0 * f"
    using assms(3) by simp
  have ee: "round_double (max e 0 * f) = PosInf" using assms(5) by simp
  from round_double_nonneg [OF s0] show ?thesis
  proof
    assume "round_double (max s 0 * f) = PosInf"
    then show ?thesis using assms(4) by (simp add: R int_round_def del: max_less_iff_conj)
  next
    assume "round_double (max s 0 * f) = Finite (quantize (max s 0 * f)) \<and>
      0 \<le> quantize (max s 0 * f) \<and> quantize (max s 0 * f) < overflow_threshold"
    then show ?thesis using assms(4) ee by (simp add: R int_round_def del: max_less_iff_conj)
  qed
qed

lemma recompute_from_times_ok:
  assumes "start_time rec = Finite s" "end_time rec = Finite e" "0 < f"
    and "\<not> max e 0 < max s 0" "fmul (Finite (max e 0)) (Finite f) \<noteq> PosInf"
  shows "recompute_from_times rec (Some (Finite f)) =
           Inr (rec\<lparr>start_time := Finite (max s 0),
                    end_time := Finite (max e 0),
                    total_time := fsub (Finite (max e 0)) (Finite (max s 0)),
                    start_frame := py_round (quantize (max s 0 * f)),
                    end_frame := py_round (quantize (max e 0 * f)),
                    total_frames := py_round (quantize (max e 0 * f)) - py_round (quantize (max s 0 * f))\<rparr>)"
    and "fmul (Finite (max s 0)) (Finite f) = Finite (quantize (max s 0 * f))"
    and "fmul (Finite (max e 0)) (Finite f) = Finite (quantize (max e 0 * f))"
    and "0 \<le> quantize (max s 0 * f)"
    and "quantize (max s 0 * f) \<le> quantize (max e 0 * f)"
    and "fle (Finite 0) (fsub (Finite (max e 0)) (Finite (max s 0)))"
proof -
  note R = recompute_from_times_finite [OF assms(1-3)]
  have s0: "0 \<le> max s 0 * f" and e0: "0 \<le> max e 0 * f"
    using assms(3) by simp_all
  have "round_double (max e 0 * f) \<noteq> PosInf" using assms(5) by simp
  with e0 have ee: "round_double (max e 0 * f) = Finite (quantize (max e 0 * f))"
    by (rule round_double_not_PosInf)
  have le: "max s 0 \<le> max e 0" using assms(4) by linarith
  then have m: "max s 0 * f \<le> max e 0 * f"
    using assms(3) by (intro mult_right_mono) simp_all
  from s0 m ee have ss: "round_double (max s 0 * f) = Finite (quantize (max s 0 * f))"
    and q0: "0 \<le> quantize (max s 0 * f)"
    and qle: "quantize (max s 0 * f) \<le> quantize (max e 0 * f)"
    by (rule round_double_mono_finite)+
  show "fmul (Finite (max s 0)) (Finite f) = Finite (quantize (max s 0 * f))"
    using ss by simp
  show "fmul (Finite (max e 0)) (Finite f) = Finite (quantize (max e 0 * f))"
    using ee by simp
  show "0 \<le> quantize (max s 0 * f)" by (rule q0)
  show "quantize (max s 0 * f) \<le> quantize (max e 0 * f)" by (rule qle)
  have "0 \<le> max e 0 - max s 0" using le by linarith
  from round_double_nonneg [OF this]
  show "fle (Finite 0) (fsub (Finite (max e 0)) (Finite (max s 0)))"
    by (auto simp: fle_def)
  have "py_round (quantize (max s 0 * f)) \<le> py_round (quantize (max e 0 * f))"
    using qle by (rule py_round_mono)
  then show "recompute_from_times rec (Some (Finite f)) =
           Inr (rec\<lparr>start_time := Finite (max s 0),
                    end_time := Finite (max e 0),
                    total_time := fsub (Finite (max e 0)) (Finite (max s 0)),
                    start_frame := py_round (quantize (max s 0 * f)),
                    end_frame := py_round (quantize (max e 0 * f)),
                    total_frames := py_round (quantize (max e 0 * f)) - py_round (quantize (max s 0 * f))\<rparr>)"
    using assms(4) by (simp add: R ss ee int_round_def del: max_less_iff_conj)
qed

text \<open>
  Claim C1, for finite times and a finite \<open>fps > 0\<close>. \<open>recompute_from_times\<close> fails with
  \<open>InvalidRange\<close> when the end time is below the start time after both were clamped at
  zero, and it never swaps them. Otherwise it fails with \<open>OverflowError\<close> when the float
  product of the end time and \<open>fps\<close> is infinite, and in every other case it returns the
  record with the clamped times, whose start and end frame are \<open>int(round(time * fps))\<close>
  in float arithmetic, whose total time is the float difference end minus start and whose
  total frames is \<open>max (end_frame - start_frame) 0\<close>; neither total is negative and no
  other field changes.
\<close>

theorem recompute_from_times_strict:
  assumes "start_time rec = Finite s" "end_time rec = Finite e" "0 < f"
  shows "(max e 0 < max s 0 \<longrightarrow> recompute_from_times rec (Some (Finite f)) = Inl InvalidRange) \<and>
         (\<not> max e 0 < max s 0 \<and> fmul (Finite (max e 0)) (Finite f) = PosInf \<longrightarrow>
            recompute_from_times rec (Some (Finite f)) =
              Inl (OverflowError ''cannot convert float infinity to integer'')) \<and>
         (\<not> max e 0 < max s 0 \<and> fmul (Finite (max e 0)) (Finite f) \<noteq> PosInf \<longrightarrow>
            (\<exists>r. recompute_from_times rec (Some (Finite f)) = Inr r
               \<and> r = rec\<lparr>start_time := start_time r, end_time := end_time r,
                          total_time := total_time r, start_frame := start_frame r,
                          end_frame := end_frame r, total_frames := total_frames r\<rparr>
               \<and> start_time r = Finite (max s 0)
               \<and> end_time r = Finite (max e 0)
               \<and> int_round (fmul (start_time r) (Finite f)) = Inr (start_frame r)
               \<and> int_round (fmul (end_time r) (Finite f)) = Inr (end_frame r)
               \<and> total_time r = fsub (end_time r) (start_time r)
               \<and> total_frames r = max (end_frame r - start_frame r) 0
               \<and> fle (Finite 0) (total_time r) \<and> 0 \<le> total_frames r))"
proof (intro conjI impI)
  show "recompute_from_times rec (Some (Finite f)) = Inl InvalidRange" if "max e 0 < max s 0"
    using assms(1,2) that by (rule recompute_from_times_inverted)
  show "recompute_from_times rec (Some (Finite f)) =
      Inl (OverflowError ''cannot convert float infinity to integer'')"
    if "\<not> max e 0 < max s 0 \<and> fmul (Finite (max e 0)) (Finite f) = PosInf"
  proof -
    from that have a: "\<not> max e 0 < max s 0" and b: "fmul (Finite (max e 0)) (Finite f) = PosInf"
      by blast+
    show ?thesis using assms a b by (rule recompute_from_times_overflow)
  qed
  show "\<exists>r. recompute_from_times rec (Some (Finite f)) = Inr r
       \<and> r = rec\<lparr>start_time := start_time r, end_time := end_time r,
                  total_time := total_time r, start_frame := start_frame r,
                  end_frame := end_frame r, total_frames := total_frames r\<rparr>
       \<and> start_time r = Finite (max s 0)
       \<and> end_time r = Finite (max e 0)
       \<and> int_round (fmul (start_time r) (Finite f)) = Inr (start_frame r)
       \<and> int_round (fmul (end_time r) (Finite f)) = Inr (end_frame r)
       \<and> total_time r = fsub (end_time r) (start_time r)
       \<and> total_frames r = max (end_frame r - start_frame r) 0
       \<and> fle (Finite 0) (total_time r) \<and> 0 \<le> total_frames r"
    if h: "\<not> max e 0 < max s 0 \<and> fmul (Finite (max e 0)) (Finite f) \<noteq> PosInf"
  proof -
    from h have h1: "\<not> max e 0 < max s 0" and h2: "fmul (Finite (max e 0)) (Finite f) \<noteq> PosInf"
      by blast+
    note ok = recompute_from_times_ok [OF assms h1 h2]
    have "py_round (quantize (max s 0 * f)) \<le> py_round (quantize (max e 0 * f))"
      using ok(5) by (rule py_round_mono)
    moreover have "round_double (max s 0 * f) = Finite (quantize (max s 0 * f))"
      and "round_double (max e 0 * f) = Finite (quantize (max e 0 * f))"
      using ok(2,3) by simp_all
    ultimately show ?thesis
      using ok(6) by (simp add: ok(1) int_round_def)
  qed
qed

theorem recompute_from_times_strict_witness:
  "recompute_from_times (example_record\<lparr>end_time := Finite 3\<rparr>) (Some (Finite 30)) = Inl InvalidRange
   \<and> (\<exists>r. recompute_from_times example_record (Some (Finite 30)) = Inr r
         \<and> start_frame r = 120 \<and> end_frame r = 150 \<and> total_time r = Finite 1 \<and> total_frames r = 30)"
proof -
  have r120: "round_double 120 = Finite 120" and r150: "round_double 150 = Finite 150"
    and r1: "round_double 1 = Finite 1"
    using round_double_of_int [of 120] round_double_of_int [of 150] round_double_of_int [of 1]
    by simp_all
  have p: "(0::real) < 30" by simp
  have a: "recompute_from_times (example_record\<lparr>end_time := Finite 3\<rparr>) (Some (Finite 30)) = Inl InvalidRange"
    using recompute_from_times_strict [of "example_record\<lparr>end_time := Finite 3\<rparr>" 4 3 30]
    by (simp add: example_record_def)
  have b: "\<exists>r. recompute_from_times example_record (Some (Finite 30)) = Inr r
         \<and> start_frame r = 120 \<and> end_frame r = 150 \<and> total_time r = Finite 1 \<and> total_frames r = 30"
    using recompute_from_times_strict [of example_record 4 5 30]
    by (auto simp: example_record_def r120 r150 r1 int_round_def py_round_def)
  from a b show ?thesis by simp
qed

text \<open>
  The claim as stated, for every record, fails on a record whose end time is the float
  \<^verbatim>\<open>1e308\<close>: at 30 frames per second the range is not inverted, and the call raises
  \<open>OverflowError\<close> instead of returning a record.
\<close>

theorem recompute_from_times_overflow_counterexample:
  "round_double (10 ^ 308) = float_1e308 \<and>
   recompute_from_times (example_record\<lparr>start_time := Finite 0, end_time := float_1e308\<rparr>) (Some (Finite 30))
     = Inl (OverflowError ''cannot convert float infinity to integer'')"
  using fmul_1e308_30 float_1e308_literal
  by (simp add: recompute_from_times_def seconds_to_frames_def fle_def int_round_def
      round_double_zero float_1e308_def example_record_def py_round_def)

text \<open>
  Claim C9, for finite times. \<open>recompute_from_times\<close> clamps negative times to zero
  before it compares them: it raises \<open>InvalidRange\<close> exactly when
  \<open>max end_time 0 < max start_time 0\<close>, whatever \<open>fps\<close> is; with a finite \<open>fps > 0\<close> it
  raises at all exactly when the clamped range is inverted or the float product of the end
  time and \<open>fps\<close> is infinite; and a record with both times negative (inverted or not) is
  accepted, for every finite or absent \<open>fps\<close>, and comes back with both times, both frames
  and both totals zero.
\<close>

theorem recompute_from_times_clamps:
  assumes "start_time rec = Finite s" "end_time rec = Finite e"
  shows "(recompute_from_times rec fps = Inl InvalidRange \<longleftrightarrow> max e 0 < max s 0) \<and>
         (\<forall>f. fps = Some (Finite f) \<and> 0 < f \<longrightarrow>
            (isl (recompute_from_times rec fps) \<longleftrightarrow>
               max e 0 < max s 0 \<or> fmul (Finite (max e 0)) (Finite f) = PosInf)) \<and>
         (s < 0 \<and> e < 0 \<and> (fps = None \<or> (\<exists>f. fps = Some (Finite f))) \<longrightarrow>
            recompute_from_times rec fps =
              Inr (rec\<lparr>start_time := Finite 0, end_time := Finite 0, total_time := Finite 0,
                       start_frame := 0, end_frame := 0, total_frames := 0\<rparr>))"
proof (intro conjI allI impI)
  note U = recompute_from_times_unfold [OF assms]
  show "recompute_from_times rec fps = Inl InvalidRange \<longleftrightarrow> max e 0 < max s 0"
  proof
    assume a: "recompute_from_times rec fps = Inl InvalidRange"
    show "max e 0 < max s 0"
    proof (rule ccontr)
      assume n: "\<not> max e 0 < max s 0"
      from a show False
        unfolding U Let_def if_not_P [OF n]
        using seconds_to_frames_not_InvalidRange
        by (auto split: sum.splits)
    qed
  next
    assume "max e 0 < max s 0"
    with assms show "recompute_from_times rec fps = Inl InvalidRange"
      by (rule recompute_from_times_inverted)
  qed
next
  fix f
  assume h: "fps = Some (Finite f) \<and> 0 < f"
  then have fps: "fps = Some (Finite f)" and f: "0 < f" by simp_all
  show "isl (recompute_from_times rec fps) \<longleftrightarrow>
      max e 0 < max s 0 \<or> fmul (Finite (max e 0)) (Finite f) = PosInf"
  proof (cases "max e 0 < max s 0")
    case True
    then show ?thesis
      using recompute_from_times_inverted [OF assms True, of fps] by simp
  next
    case n: False
    show ?thesis
    proof (cases "fmul (Finite (max e 0)) (Finite f) = PosInf")
      case True
      then show ?thesis
        using recompute_from_times_overflow [OF assms f n True] by (simp add: fps)
    next
      case False
      then show ?thesis
        using recompute_from_times_ok(1) [OF assms f n False] n by (simp add: fps)
    qed
  qed
next
  assume h: "s < 0 \<and> e < 0 \<and> (fps = None \<or> (\<exists>f. fps = Some (Finite f)))"
  then have m: "max s 0 = 0" "max e 0 = 0" by simp_all
  from h have "\<exists>g. (case fps of None \<Rightarrow> Finite 30 | Some f \<Rightarrow> if fle f (Finite 0) then Finite 30 else f) = Finite g"
    by (auto split: option.splits)
  then obtain g where g: "(case fps of None \<Rightarrow> Finite 30 | Some f \<Rightarrow> if fle f (Finite 0) then Finite 30 else f) = Finite g"
    by blast
  have z: "seconds_to_frames (Some (Finite 0)) (Some (Finite g)) = Inr 0"
    by (simp add: seconds_to_frames_def int_round_def round_double_zero py_round_zero)
  show "recompute_from_times rec fps =
      Inr (rec\<lparr>start_time := Finite 0, end_time := Finite 0, total_time := Finite 0,
               start_frame := 0, end_frame := 0, total_frames := 0\<rparr>)"
    unfolding recompute_from_times_unfold [OF assms] Let_def g m by (simp add: z round_double_zero)
qed

theorem recompute_from_times_clamps_witness:
  "recompute_from_times (example_record\<lparr>start_time := Finite (- 1), end_time := Finite (- 5)\<rparr>)
     (Some (Finite 30)) =
     Inr (example_record\<lparr>start_time := Finite 0, end_time := Finite 0, total_time := Finite 0,
                         start_frame := 0, end_frame := 0, total_frames := 0\<rparr>)"
  using recompute_from_times_clamps
    [of "example_record\<lparr>start_time := Finite (- 1), end_time := Finite (- 5)\<rparr>" "- 1" "- 5" "Some (Finite 30)"]
  by (simp add: example_record_def)

lemma fmul_2_1023_30: "fmul (Finite (2 ^ 1023)) (Finite 30) = PosInf"
proof -
  have "quantize (2 ^ 1023 * 30) = 30 * 2 ^ 1023"
    by (subst quantize_eval [where k = 1027]) (simp_all add: scale2_def py_round_def)
  then show ?thesis
    by (simp add: round_double_def overflow_threshold_def)
qed

text \<open>
  The claim as stated has the call raise only on an inverted range; it also raises, with
  \<open>OverflowError\<close>, on the range from 0 to \<open>2 ^ 1023\<close> seconds at 30 frames per second.
\<close>

theorem recompute_from_times_raises_counterexample:
  "isl (recompute_from_times (example_record\<lparr>start_time := Finite 0, end_time := Finite (2 ^ 1023)\<rparr>)
          (Some (Finite 30)))
   \<and> \<not> max (2 ^ 1023) 0 < max (0::real) 0"
  using fmul_2_1023_30
  by (simp add: recompute_from_times_def seconds_to_frames_def fle_def int_round_def
      round_double_zero example_record_def py_round_def)

subsection \<open>Times to frames and back\<close>

lemma recompute_from_frames_ok:
  assumes "0 \<le> start_frame r" "start_frame r \<le> end_frame r" "0 < f"
    and "float_of_int (start_frame r) = Inr (Finite ws)" "float_of_int (end_frame r) = Inr (Finite we)"
  shows "recompute_from_frames r (Some (Finite f)) =
           Inr (r\<lparr>total_frames := end_frame r - start_frame r,
                  start_time := round_double (ws / f),
                  end_time := round_double (we / f),
                  total_time := fsub (round_double (we / f)) (round_double (ws / f))\<rparr>)"
proof -
  have f: "(if fle (Finite f) (Finite 0) then Finite 30 else Finite f) = Finite f"
    using assms(3) by (simp add: fle_def)
  have s: "frames_to_seconds (Some (start_frame r)) (Some (Finite f)) = Inr (round_double (ws / f))"
    and e: "frames_to_seconds (Some (end_frame r)) (Some (Finite f)) = Inr (round_double (we / f))"
    using assms(3-5) by (simp_all add: frames_to_seconds_def int_div_float_def fle_def)
  show ?thesis
    using assms(1,2) by (simp add: recompute_from_frames_def f s e Let_def)
qed

text \<open>
  Claim C4, for finite times \<open>0 \<le> start \<le> end\<close> and a finite \<open>fps > 0\<close> such that the float
  product of the end time and \<open>fps\<close> is finite. Recomputing from the times succeeds,
  recomputing the result from its frames succeeds too and leaves both frames as they are,
  and the total number of frames after the second step is the total after the first, hence
  within one frame of it.
\<close>

theorem times_then_frames_round_trip:
  assumes "start_time rec = Finite s" "end_time rec = Finite e" "0 \<le> s" "s \<le> e" "0 < f"
    and "fmul (Finite e) (Finite f) \<noteq> PosInf"
  shows "\<exists>r1 r2. recompute_from_times rec (Some (Finite f)) = Inr r1
            \<and> recompute_from_frames r1 (Some (Finite f)) = Inr r2
            \<and> start_frame r2 = start_frame r1 \<and> end_frame r2 = end_frame r1
            \<and> total_frames r2 = total_frames r1
            \<and> \<bar>total_frames r2 - total_frames r1\<bar> \<le> 1"
proof -
  have m: "max s 0 = s" "max e 0 = e" using assms(3,4) by simp_all
  have n: "\<not> max e 0 < max s 0" using assms(4) by (simp add: m)
  have p: "fmul (Finite (max e 0)) (Finite f) \<noteq> PosInf" using assms(6) by (simp add: m)
  note ok = recompute_from_times_ok [OF assms(1,2,5) n p, unfolded m]
  let ?sf = "py_round (quantize (s * f))" and ?ef = "py_round (quantize (e * f))"
  let ?r1 = "rec\<lparr>start_time := Finite s, end_time := Finite e,
                  total_time := fsub (Finite e) (Finite s),
                  start_frame := ?sf, end_frame := ?ef, total_frames := ?ef - ?sf\<rparr>"
  have s0: "0 \<le> s * f" and e0: "0 \<le> e * f"
    using assms(3,4,5) by simp_all
  have rs: "round_double (s * f) = Finite (quantize (s * f))"
    and re: "round_double (e * f) = Finite (quantize (e * f))"
    using ok(2,3) by simp_all
  obtain ws where ws: "float_of_int ?sf = Inr (Finite ws)"
    using float_of_int_py_round [OF s0 rs] by blast
  obtain we where we: "float_of_int ?ef = Inr (Finite we)"
    using float_of_int_py_round [OF e0 re] by blast
  have sf0: "0 \<le> ?sf" using ok(4) by (rule py_round_nonneg)
  have le: "?sf \<le> ?ef" using ok(5) by (rule py_round_mono)
  have "recompute_from_frames ?r1 (Some (Finite f)) =
      Inr (?r1\<lparr>total_frames := end_frame ?r1 - start_frame ?r1,
                start_time := round_double (ws / f),
                end_time := round_double (we / f),
                total_time := fsub (round_double (we / f)) (round_double (ws / f))\<rparr>)"
    using sf0 le assms(5) ws we by (intro recompute_from_frames_ok) simp_all
  then show ?thesis
    using ok(1) by simp
qed

theorem times_then_frames_round_trip_witness:
  "\<exists>r1 r2. recompute_from_times example_record (Some (Finite 30)) = Inr r1
            \<and> recompute_from_frames r1 (Some (Finite 30)) = Inr r2
            \<and> total_frames r2 = total_frames r1"
proof -
  have "round_double 150 = Finite 150"
    using round_double_of_int [of 150] by simp
  then have "fmul (Finite 5) (Finite 30) \<noteq> PosInf"
    by simp
  then show ?thesis
    using times_then_frames_round_trip [of example_record 4 5 30]
    by (simp add: example_record_def) blast
qed

text \<open>
  The claim as stated, for every \<open>0 \<le> start \<le> end\<close>, fails on the range from 1 to
  \<open>2 ^ 1023\<close> seconds at 30 frames per second: the first step raises \<open>OverflowError\<close>.
\<close>

theorem times_then_frames_overflow_counterexample:
  "(0::real) \<le> 1 \<and> (1::real) \<le> 2 ^ 1023 \<and> (0::real) < 30 \<and>
   recompute_from_times (example_record\<lparr>start_time := Finite 1, end_time := Finite (2 ^ 1023)\<rparr>)
     (Some (Finite 30)) = Inl (OverflowError ''cannot convert float infinity to integer'')"
proof -
  have "round_double 30 = Finite 30"
    using round_double_of_int [of 30] by simp
  then show ?thesis
    using fmul_2_1023_30
    by (simp add: recompute_from_times_def seconds_to_frames_def fle_def int_round_def
        example_record_def py_round_def)
qed

subsection \<open>Drag editing on the timeline\<close>














subsection \<open>Finishing a captured step\<close>

text \<open>
  Claim C6. With the window in the state \<open>AwaitingConfirmEnd\<close> and the slider at a position
  strictly before the captured start, \<open>_finish_step\<close> shows the warning
  ``Invalid range'' and returns the window exactly as it was: no record is added, the
  pending fields keep their values and the window is still in \<open>AwaitingConfirmEnd\<close>,
  whatever the dialog would have answered.
\<close>

theorem finish_step_invalid_range:
  assumes "awaiting_confirm_end mw" "pending_start_ms (state mw) = Some s" "slider_value < s"
  shows "\<exists>mw'. finish_step fps_for is_at_end slider_value prompt mw = Inr (mw', [InvalidRange_warning])
           \<and> mw' = mw
           \<and> annotations (state mw') = annotations (state mw)
           \<and> pending_start_ms (state mw') = Some s
           \<and> awaiting_confirm_end mw'"
  using assms
  by (simp add: finish_step_def awaiting_confirm_end_def InvalidRange_warning_def Let_def)

theorem finish_step_invalid_range_witness:
  "finish_step (\<lambda>v. Finite 30) False 4000 (Some (7, ''ok'')) example_window =
     Inr (example_window, [InvalidRange_warning])"
proof -
  have "awaiting_confirm_end example_window"
    by (simp add: awaiting_confirm_end_def example_window_def falsy_def)
  moreover have "pending_start_ms (state example_window) = Some 5000"
    by (simp add: example_window_def)
  moreover have "(4000::int) < 5000" by simp
  ultimately show ?thesis
    using finish_step_invalid_range [of example_window 5000 4000 "\<lambda>v. Finite 30" False "Some (7, ''ok'')"]
    by simp
qed

subsection \<open>Lane stacking\<close>

lemma normalize_block_well_formed: "well_formed (normalize_block b)"
  by (simp add: normalize_block_def well_formed_def Let_def)

lemma normalize_block_id: "well_formed b \<Longrightarrow> normalize_block b = b"
  by (simp add: normalize_block_def well_formed_def Let_def)

lemma chained_end_le_last:
  assumes "chained lane" "list_all well_formed lane" "x \<in> set lane"
  shows "end_ms x \<le> end_ms (last lane)"
  using assms
proof (induction lane)
  case Nil
  then show ?case by simp
next
  case (Cons y ys)
  show ?case
  proof (cases "ys = []")
    case True
    then show ?thesis using Cons.prems(3) by simp
  next
    case False
    then have l: "last ys \<in> set ys" by simp
    have c: "chained ys" and w: "list_all well_formed ys"
      using Cons.prems(1,2) by (simp_all add: chained_def)
    have wl: "start_ms (last ys) \<le> end_ms (last ys)"
      using w l by (simp add: list_all_iff well_formed_def)
    show ?thesis
    proof (cases "x = y")
      case True
      have "end_ms y \<le> start_ms (last ys)"
        using Cons.prems(1) l by (simp add: chained_def)
      then have "end_ms y \<le> end_ms (last ys)"
        using wl by linarith
      then show ?thesis using True False by simp
    next
      case neq: False
      then have "x \<in> set ys" using Cons.prems(3) by simp
      then have "end_ms x \<le> end_ms (last ys)"
        using Cons.IH c w by blast
      then show ?thesis using False by simp
    qed
  qed
qed

lemma lane_ok_snoc:
  assumes "lane_ok lane" "well_formed b" "end_ms (last lane) \<le> start_ms b"
  shows "lane_ok (lane @ [b])"
proof -
  have c: "chained lane" and w: "list_all well_formed lane"
    using assms(1) by (simp_all add: lane_ok_def)
  have "end_ms x \<le> start_ms b" if "x \<in> set lane" for x
  proof -
    have "end_ms x \<le> end_ms (last lane)"
      using c w that by (rule chained_end_le_last)
    then show ?thesis using assms(3) by linarith
  qed
  then have "chained (lane @ [b])"
    using c by (simp add: chained_def sorted_wrt_append)
  moreover have "list_all well_formed (lane @ [b])"
    using w assms(2) by simp
  ultimately show ?thesis by (simp add: lane_ok_def)
qed

lemma lane_ok_single: "well_formed b \<Longrightarrow> lane_ok [b]"
  by (simp add: lane_ok_def chained_def)

lemma place_in_lanes_ok:
  assumes "lanes_ok lanes" "well_formed b" "place_in_lanes lanes b = Some lanes'"
  shows "lanes_ok lanes'"
  using assms
proof (induction lanes arbitrary: lanes')
  case Nil
  then show ?case by simp
next
  case (Cons lane lanes)
  have h: "lane_ok lane" and t: "lanes_ok lanes"
    using Cons.prems(1) by (simp_all add: lanes_ok_def)
  show ?case
  proof (cases "end_ms (last lane) \<le> start_ms b")
    case True
    then have "lanes' = (lane @ [b]) # lanes"
      using Cons.prems(3) by simp
    moreover have "lane_ok (lane @ [b])"
      using h Cons.prems(2) True by (rule lane_ok_snoc)
    ultimately show ?thesis
      using t by (simp add: lanes_ok_def)
  next
    case False
    then obtain rest where r: "place_in_lanes lanes b = Some rest" "lanes' = lane # rest"
      using Cons.prems(3) by auto
    have "lanes_ok rest"
      using t Cons.prems(2) r(1) by (rule Cons.IH)
    then show ?thesis
      using r(2) h by (simp add: lanes_ok_def)
  qed
qed

lemma add_block_ok:
  assumes "lanes_ok lanes" "well_formed b"
  shows "lanes_ok (add_block lanes b)"
proof (cases "place_in_lanes lanes b")
  case None
  then show ?thesis
    using assms lane_ok_single [of b] by (simp add: add_block_def lanes_ok_def)
next
  case (Some lanes')
  then show ?thesis
    using place_in_lanes_ok [OF assms Some] by (simp add: add_block_def)
qed

lemma foldl_add_block_ok:
  assumes "lanes_ok lanes" "list_all well_formed bs"
  shows "lanes_ok (foldl add_block lanes bs)"
  using assms
proof (induction bs arbitrary: lanes)
  case Nil
  then show ?case by simp
next
  case (Cons b bs)
  have "well_formed b" and r: "list_all well_formed bs"
    using Cons.prems(2) by simp_all
  then have "lanes_ok (add_block lanes b)"
    using Cons.prems(1) by (intro add_block_ok)
  then have "lanes_ok (foldl add_block (add_block lanes b) bs)"
    using r by (rule Cons.IH)
  then show ?case by simp
qed

lemma stack_lanes_ok: "lanes_ok (stack_blocks_into_lanes bs)"
proof (cases "bs = []")
  case True
  then show ?thesis by (simp add: stack_blocks_into_lanes_def lanes_ok_def)
next
  case False
  have "list_all well_formed (sort_key sort_key_of (map normalize_block bs))"
    by (simp add: list_all_iff normalize_block_well_formed)
  moreover have "lanes_ok []"
    by (simp add: lanes_ok_def)
  ultimately have "lanes_ok (foldl add_block [] (sort_key sort_key_of (map normalize_block bs)))"
    by (intro foldl_add_block_ok)
  then show ?thesis
    using False by (simp add: stack_blocks_into_lanes_def)
qed

lemma stack_lanes_nonempty: "lane \<in> set (stack_blocks_into_lanes bs) \<Longrightarrow> lane \<noteq> []"
  using stack_lanes_ok [of bs] by (simp add: lanes_ok_def list_all_iff lane_ok_def)

lemma lane_ok_no_overlap:
  assumes "lane_ok lane" "i < length lane" "j < length lane" "i \<noteq> j"
  shows "\<not> genuine_overlap (lane ! i) (lane ! j)"
proof -
  have c: "sorted_wrt (\<lambda>a b. end_ms a \<le> start_ms b) lane"
    using assms(1) by (simp add: lane_ok_def chained_def)
  show ?thesis
  proof (cases "i < j")
    case True
    then have "end_ms (lane ! i) \<le> start_ms (lane ! j)"
      using c assms(3) by (simp add: sorted_wrt_iff_nth_less)
    then show ?thesis by (simp add: genuine_overlap_def)
  next
    case False
    then have "j < i" using assms(4) by simp
    then have "end_ms (lane ! j) \<le> start_ms (lane ! i)"
      using c assms(2) by (simp add: sorted_wrt_iff_nth_less)
    then show ?thesis by (simp add: genuine_overlap_def)
  qed
qed

lemma sort_key_two: "sort_key f [x, y] = (if f x \<le> f y then [x, y] else [y, x])"
  by simp

lemma stack_pair_sorted:
  assumes "end_ms x \<le> start_ms y"
  shows "foldl add_block [] [x, y] = [[x, y]]"
  using assms by (simp add: add_block_def)

lemma stack_two_eq:
  assumes "start_ms a \<le> end_ms a" "start_ms b \<le> end_ms b"
  shows "stack_blocks_into_lanes [a, b] = foldl add_block [] (sort_key sort_key_of [a, b])"
proof -
  have "normalize_block a = a" "normalize_block b = b"
    using assms by (simp_all add: normalize_block_id well_formed_def)
  then show ?thesis
    by (simp add: stack_blocks_into_lanes_def)
qed

lemma stack_two_touching:
  assumes "start_ms a \<le> end_ms a" "start_ms b \<le> end_ms b" "end_ms a = start_ms b"
  shows "stack_blocks_into_lanes [a, b] = [[a, b]]"
proof -
  have k: "sort_key_of a \<le> sort_key_of b"
    using assms by (auto simp: sort_key_of_def less_eq_prod_simp)
  have "stack_blocks_into_lanes [a, b] = foldl add_block [] (sort_key sort_key_of [a, b])"
    using assms(1,2) by (rule stack_two_eq)
  also have "sort_key sort_key_of [a, b] = [a, b]"
    using k by (simp only: sort_key_two if_True)
  also have "foldl add_block [] [a, b] = [[a, b]]"
    using assms(3) by (intro stack_pair_sorted) simp
  finally show ?thesis .
qed

lemma stack_two_touching_rev:
  assumes "start_ms a \<le> end_ms a" "start_ms b \<le> end_ms b" "end_ms a = start_ms b"
  shows "stack_blocks_into_lanes [b, a] = [[a, b]] \<or> stack_blocks_into_lanes [b, a] = [[b, a]]"
proof -
  have s: "stack_blocks_into_lanes [b, a] = foldl add_block [] (sort_key sort_key_of [b, a])"
    using assms(2,1) by (rule stack_two_eq)
  show ?thesis
  proof (cases "sort_key_of b \<le> sort_key_of a")
    case True
    then have "end_ms b \<le> start_ms a"
      using assms by (auto simp: sort_key_of_def less_eq_prod_simp)
    then have "foldl add_block [] [b, a] = [[b, a]]"
      by (rule stack_pair_sorted)
    moreover have "sort_key sort_key_of [b, a] = [b, a]"
      using True by (simp only: sort_key_two if_True)
    ultimately show ?thesis using s by simp
  next
    case False
    have "foldl add_block [] [a, b] = [[a, b]]"
      using assms(3) by (intro stack_pair_sorted) simp
    moreover have "sort_key sort_key_of [b, a] = [a, b]"
      using False by (simp only: sort_key_two if_False)
    ultimately show ?thesis using s by simp
  qed
qed

lemma stack_touching_example:
  "stack_blocks_into_lanes [touching_a, touching_b] = [[touching_a, touching_b]]"
  by (rule stack_two_touching) (simp_all add: touching_a_def touching_b_def)

lemma place_in_lanes_mset:
  assumes "place_in_lanes lanes b = Some lanes'"
  shows "mset (concat lanes') = mset (concat lanes) + {#b#}"
  using assms
proof (induction lanes arbitrary: lanes')
  case Nil
  then show ?case by simp
next
  case (Cons lane lanes)
  show ?case
  proof (cases "end_ms (last lane) \<le> start_ms b")
    case True
    then have "lanes' = (lane @ [b]) # lanes"
      using Cons.prems by simp
    then show ?thesis by simp
  next
    case False
    then obtain rest where r: "place_in_lanes lanes b = Some rest" "lanes' = lane # rest"
      using Cons.prems by auto
    have "mset (concat rest) = mset (concat lanes) + {#b#}"
      using r(1) by (rule Cons.IH)
    then show ?thesis
      using r(2) by simp
  qed
qed

lemma add_block_mset: "mset (concat (add_block lanes b)) = mset (concat lanes) + {#b#}"
proof (cases "place_in_lanes lanes b")
  case None
  then show ?thesis by (simp add: add_block_def)
next
  case (Some lanes')
  then show ?thesis
    using place_in_lanes_mset [OF Some] by (simp add: add_block_def)
qed

lemma foldl_add_block_mset:
  "mset (concat (foldl add_block lanes bs)) = mset (concat lanes) + mset bs"
proof (induction bs arbitrary: lanes)
  case Nil
  then show ?case by simp
next
  case (Cons b bs)
  have "mset (concat (foldl add_block (add_block lanes b) bs)) = mset (concat (add_block lanes b)) + mset bs"
    by (rule Cons.IH)
  then show ?case
    by (simp add: add_block_mset)
qed

text \<open>Every block of the input is placed, normalised, in exactly one lane.\<close>

lemma stack_lanes_mset:
  "mset (concat (stack_blocks_into_lanes bs)) = mset (map normalize_block bs)"
  by (simp add: stack_blocks_into_lanes_def foldl_add_block_mset)

text \<open>
  Claim C2, with the second part for intervals that have their start no later than their
  end. For every input list, no two blocks at different positions of a lane genuinely
  overlap. For every input of exactly two intervals \<open>a\<close> and \<open>b\<close>, each with
  \<open>start_ms \<le> end_ms\<close>, such that \<open>end_ms a = start_ms b\<close>, both are placed in the same lane,
  in whichever order they are given.
\<close>

theorem stack_lanes_no_overlap:
  "(\<forall>lane\<in>set (stack_blocks_into_lanes bs). \<forall>i<length lane. \<forall>j<length lane.
       i \<noteq> j \<longrightarrow> \<not> genuine_overlap (lane ! i) (lane ! j)) \<and>
   (start_ms a \<le> end_ms a \<and> start_ms b \<le> end_ms b \<and> end_ms a = start_ms b \<longrightarrow>
      (\<exists>lane. stack_blocks_into_lanes [a, b] = [lane] \<and> set lane = {a, b}) \<and>
      (\<exists>lane. stack_blocks_into_lanes [b, a] = [lane] \<and> set lane = {a, b}))"
proof (intro conjI ballI allI impI)
  fix lane i j
  assume l: "lane \<in> set (stack_blocks_into_lanes bs)"
    and "i < length lane" "j < length lane" "i \<noteq> j"
  have "lane_ok lane"
    using stack_lanes_ok [of bs] l by (simp add: lanes_ok_def list_all_iff)
  then show "\<not> genuine_overlap (lane ! i) (lane ! j)"
    using \<open>i < length lane\<close> \<open>j < length lane\<close> \<open>i \<noteq> j\<close> by (rule lane_ok_no_overlap)
next
  assume h: "start_ms a \<le> end_ms a \<and> start_ms b \<le> end_ms b \<and> end_ms a = start_ms b"
  then have "stack_blocks_into_lanes [a, b] = [[a, b]]"
    by (intro stack_two_touching) simp_all
  then show "\<exists>lane. stack_blocks_into_lanes [a, b] = [lane] \<and> set lane = {a, b}"
    by simp
next
  assume h: "start_ms a \<le> end_ms a \<and> start_ms b \<le> end_ms b \<and> end_ms a = start_ms b"
  then have "stack_blocks_into_lanes [b, a] = [[a, b]] \<or> stack_blocks_into_lanes [b, a] = [[b, a]]"
    by (intro stack_two_touching_rev) simp_all
  then show "\<exists>lane. stack_blocks_into_lanes [b, a] = [lane] \<and> set lane = {a, b}"
    by (elim disjE) (simp_all add: insert_commute)
qed

theorem stack_lanes_no_overlap_witness:
  "stack_blocks_into_lanes [touching_a, touching_b] = [[touching_a, touching_b]]
   \<and> \<not> genuine_overlap touching_a touching_b"
proof -
  let ?bs = "[touching_a, touching_b]"
  have pre: "start_ms touching_a \<le> end_ms touching_a \<and> start_ms touching_b \<le> end_ms touching_b
      \<and> end_ms touching_a = start_ms touching_b"
    by (simp add: touching_a_def touching_b_def)
  note c = stack_lanes_no_overlap [of ?bs touching_a touching_b]
  have 1: "\<forall>lane\<in>set (stack_blocks_into_lanes ?bs). \<forall>i<length lane. \<forall>j<length lane.
       i \<noteq> j \<longrightarrow> \<not> genuine_overlap (lane ! i) (lane ! j)"
    using c by (rule conjunct1)
  have 2: "\<exists>lane. stack_blocks_into_lanes ?bs = [lane] \<and> set lane = {touching_a, touching_b}"
    using c pre by blast
  have e: "stack_blocks_into_lanes ?bs = [?bs]"
    by (rule stack_touching_example)
  have "\<forall>i<length ?bs. \<forall>j<length ?bs. i \<noteq> j \<longrightarrow> \<not> genuine_overlap (?bs ! i) (?bs ! j)"
    using 1 by (simp add: e)
  then have "(0::nat) < length ?bs \<longrightarrow> (1::nat) < length ?bs \<longrightarrow> (0::nat) \<noteq> 1
      \<longrightarrow> \<not> genuine_overlap (?bs ! 0) (?bs ! 1)"
    by blast
  then have "\<not> genuine_overlap touching_a touching_b"
    by simp
  then show ?thesis using e 2 by simp
qed

text \<open>
  The second part of the claim as stated, for every two intervals with \<open>a.end_ms == b.start_ms\<close>,
  fails when \<open>a\<close> is given with its bounds inverted: the function first swaps them, after
  which the two intervals overlap and go to different lanes.
\<close>

theorem stack_inverted_touching_counterexample:
  "end_ms inverted_a = start_ms inverted_b \<and>
   stack_blocks_into_lanes [inverted_a, inverted_b] =
     [[\<lparr>idx = 0, start_ms = 5, end_ms = 10\<rparr>], [\<lparr>idx = 1, start_ms = 5, end_ms = 20\<rparr>]]"
  by (simp add: stack_blocks_into_lanes_def normalize_block_def sort_key_of_def add_block_def
      inverted_a_def inverted_b_def)

lemma sort_key_perm_unique:
  assumes "mset ys = mset xs" "distinct (map f xs)"
  shows "sort_key f ys = sort_key f xs"
proof -
  have "mset (map f ys) = mset (map f xs)"
    using assms(1) by simp
  then have dy: "distinct (map f ys)"
    using assms(2) mset_eq_imp_distinct_iff by blast
  have s: "set ys = set xs"
    using assms(1) by (rule mset_eq_setD)
  have "map f (sort_key f ys) = map f (sort_key f xs)"
  proof (rule sorted_distinct_set_unique)
    show "sorted (map f (sort_key f ys))" by simp
    show "sorted (map f (sort_key f xs))" by simp
    show "distinct (map f (sort_key f ys))" using dy by (simp add: distinct_map)
    show "distinct (map f (sort_key f xs))" using assms(2) by (simp add: distinct_map)
    show "set (map f (sort_key f ys)) = set (map f (sort_key f xs))" using s by simp
  qed
  moreover have "inj_on f (set (sort_key f ys) \<union> set (sort_key f xs))"
    using assms(2) s by (simp add: distinct_map)
  ultimately show ?thesis
    by (simp only: inj_on_map_eq_map)
qed

text \<open>
  Claim C3, for intervals whose normalised (start, duration) pairs are pairwise distinct.
  The function reads nothing but its argument and does not change it, so calling it twice
  on the same list gives the same lanes. Calling it on a permutation of the list gives the
  same lanes as well, hence the same lane for every interval index.
\<close>

theorem stack_permutation_invariant:
  assumes "mset ys = mset xs" "distinct (map (\<lambda>b. sort_key_of (normalize_block b)) xs)"
  shows "stack_blocks_into_lanes ys = stack_blocks_into_lanes xs
         \<and> (\<forall>i. lane_of (stack_blocks_into_lanes ys) i = lane_of (stack_blocks_into_lanes xs) i)"
proof -
  have "mset (map normalize_block ys) = mset (map normalize_block xs)"
    using assms(1) by simp
  moreover have "distinct (map sort_key_of (map normalize_block xs))"
    using assms(2) by (simp add: comp_def)
  ultimately have k: "sort_key sort_key_of (map normalize_block ys) = sort_key sort_key_of (map normalize_block xs)"
    by (rule sort_key_perm_unique)
  have "ys = [] \<longleftrightarrow> xs = []"
    using assms(1) by (metis mset_zero_iff)
  then have "stack_blocks_into_lanes ys = stack_blocks_into_lanes xs"
    using k by (simp add: stack_blocks_into_lanes_def)
  then show ?thesis by simp
qed

theorem stack_permutation_invariant_witness:
  "stack_blocks_into_lanes [touching_b, inverted_a, touching_a] = stack_blocks_into_lanes [inverted_a, touching_a, touching_b]"
proof -
  have "mset [touching_b, inverted_a, touching_a] = mset [inverted_a, touching_a, touching_b]"
    by simp
  moreover have "distinct (map (\<lambda>b. sort_key_of (normalize_block b)) [inverted_a, touching_a, touching_b])"
    by (simp add: sort_key_of_def normalize_block_def inverted_a_def touching_a_def touching_b_def)
  ultimately show ?thesis
    using stack_permutation_invariant by blast
qed

text \<open>
  The claim as stated, for every list, fails on two intervals with the same start and
  end: the sort is stable and the sort key leaves out the index, so the interval given
  first takes lane 0, and swapping the two swaps their lanes.
\<close>

theorem stack_permutation_tie_counterexample:
  "mset [tie_b, tie_a] = mset [tie_a, tie_b] \<and>
   lane_of (stack_blocks_into_lanes [tie_a, tie_b]) 0 = Some 0 \<and>
   lane_of (stack_blocks_into_lanes [tie_b, tie_a]) 0 = Some 1"
  by (simp add: stack_blocks_into_lanes_def normalize_block_def sort_key_of_def add_block_def
      lane_of_def tie_a_def tie_b_def)

subsection \<open>End-of-stream masking\<close>









subsection \<open>Colour assignment\<close>

lemma palette_length: "int (length SKILL_COLOR_PALETTE_50) = 50"
  by (simp add: SKILL_COLOR_PALETTE_50_def)

text \<open>The colour shown for a palette or generated index.\<close>

lemma get_skill_color_hex_mapped:
  assumes "map_of (skill_color_map c) n = Some i"
  shows "get_skill_color_hex gen (Some n) (Some c) =
           (if i < 50 then SKILL_COLOR_PALETTE_50 ! nat (i mod 50) else gen (i - 50), Some c)"
  using assms by (simp add: get_skill_color_hex_def palette_length Let_def)

lemma find_upto_Some:
  assumes "find P [0..49] = Some (i::int)"
  shows "0 \<le> i" "i < 50" "P i" "\<forall>j. 0 \<le> j \<and> j < i \<longrightarrow> \<not> P j"
proof -
  from assms obtain k where k: "k < length [0..49::int]" "P ([0..49] ! k)" "i = [0..49] ! k"
    "\<forall>j<k. \<not> P ([0..49] ! j)"
    by (auto simp: find_Some_iff)
  have len: "length [0..49::int] = 50" by simp
  have nth: "[0..49::int] ! j = int j" if "j < 50" for j
    using that by (simp add: nth_upto)
  have i: "i = int k" using k(1,3) nth by (simp only: len)
  show "0 \<le> i" "i < 50" using i k(1) by simp_all
  show "P i" using k(2,3) by simp
  show "\<forall>j. 0 \<le> j \<and> j < i \<longrightarrow> \<not> P j"
  proof (intro allI impI)
    fix j assume j: "0 \<le> j \<and> j < i"
    then have "0 \<le> j" "j < int k" using i by simp_all
    then have "nat j < k" by (simp add: nat_less_iff)
    then have "\<not> P ([0..49] ! nat j)" using k(4) by blast
    moreover have "nat j < 50" using \<open>nat j < k\<close> k(1) by simp
    ultimately show "\<not> P j" using j nth [of "nat j"] by simp
  qed
qed

lemma find_upto_None:
  assumes "find P [0..49] = (None :: int option)"
  shows "\<forall>j. 0 \<le> j \<and> j < 50 \<longrightarrow> \<not> P j"
  using assms by (auto simp: find_None_iff)

lemma get_skill_color_hex_new:
  assumes "map_of (skill_color_map c) n = None"
  shows "\<exists>i. get_skill_color_hex gen (Some n) (Some c) =
           (if i < 50 then SKILL_COLOR_PALETTE_50 ! nat i else gen (i - 50),
            Some (c\<lparr>skill_color_map := skill_color_map c @ [(n, i)]\<rparr>))
         \<and> 0 \<le> i \<and> i \<notin> snd ` set (skill_color_map c)
         \<and> ((\<exists>j. 0 \<le> j \<and> j < 50 \<and> j \<notin> snd ` set (skill_color_map c)) \<longrightarrow>
              i < 50 \<and> (\<forall>j. 0 \<le> j \<and> j < i \<longrightarrow> j \<in> snd ` set (skill_color_map c)))
         \<and> ((\<forall>j. 0 \<le> j \<and> j < 50 \<longrightarrow> j \<in> snd ` set (skill_color_map c)) \<longrightarrow>
              i = Max (snd ` set (skill_color_map c)) + 1 \<and> 50 \<le> i)"
proof -
  let ?m = "skill_color_map c"
  let ?used = "map snd ?m"
  have su: "set ?used = snd ` set ?m" by simp
  show ?thesis
  proof (cases "find (\<lambda>i. i \<notin> set ?used) [0..49]")
    case (Some i)
    note f = find_upto_Some [OF Some]
    have "get_skill_color_hex gen (Some n) (Some c) =
        (SKILL_COLOR_PALETTE_50 ! nat i, Some (c\<lparr>skill_color_map := ?m @ [(n, i)]\<rparr>))"
      using assms Some f(1,2) by (simp add: get_skill_color_hex_def palette_length Let_def)
    moreover have "\<forall>j. 0 \<le> j \<and> j < i \<longrightarrow> j \<in> snd ` set ?m"
      using f(4) by (simp only: su) blast
    moreover have "\<not> (\<forall>j. 0 \<le> j \<and> j < 50 \<longrightarrow> j \<in> snd ` set ?m)"
      using f(1,2,3) by (simp only: su) blast
    ultimately show ?thesis
      using f(1,2,3) by (intro exI [of _ i]) (simp add: su)
  next
    case None
    note f = find_upto_None [OF None]
    have all: "\<forall>j. 0 \<le> j \<and> j < 50 \<longrightarrow> j \<in> snd ` set ?m"
      using f by (simp only: su) blast
    then have in49: "49 \<in> snd ` set ?m" by simp
    then have ne: "?used \<noteq> []" by auto
    have fin: "finite (snd ` set ?m)" by simp
    define M where "M = Max (snd ` set ?m)"
    have M49: "49 \<le> M"
      unfolding M_def using fin in49 by (rule Max_ge)
    have notin: "M + 1 \<notin> snd ` set ?m"
    proof
      assume "M + 1 \<in> snd ` set ?m"
      then have "M + 1 \<le> M" unfolding M_def using fin by (intro Max_ge)
      then show False by simp
    qed
    have M': "Max (set ?used) = M" by (simp only: su M_def)
    have g: "get_skill_color_hex gen (Some n) (Some c) =
        (gen (M + 1 - 50), Some (c\<lparr>skill_color_map := ?m @ [(n, M + 1)]\<rparr>))"
      unfolding get_skill_color_hex_def option.case Let_def palette_length assms M'
      using None ne M49 by simp
    show ?thesis
      unfolding M_def [symmetric]
      using g M49 notin all by (intro exI [of _ "M + 1"]) simp
  qed
qed

lemma get_skill_color_hex_idem:
  "get_skill_color_hex gen step (snd (get_skill_color_hex gen step cfg)) =
     get_skill_color_hex gen step cfg"
proof (cases step)
  case None
  then show ?thesis by (simp add: get_skill_color_hex_def)
next
  case (Some n)
  show ?thesis
  proof (cases cfg)
    case None
    then show ?thesis using Some by (simp add: get_skill_color_hex_def Let_def)
  next
    case c: (Some c)
    show ?thesis
    proof (cases "map_of (skill_color_map c) n")
      case None
      from get_skill_color_hex_new [OF None, of gen] obtain i where
        i: "get_skill_color_hex gen (Some n) (Some c) =
              (if i < 50 then SKILL_COLOR_PALETTE_50 ! nat i else gen (i - 50),
               Some (c\<lparr>skill_color_map := skill_color_map c @ [(n, i)]\<rparr>))" and i0: "0 \<le> i"
        by blast
      have "map_of (skill_color_map (c\<lparr>skill_color_map := skill_color_map c @ [(n, i)]\<rparr>)) n = Some i"
        using None by (simp add: map_add_def)
      from get_skill_color_hex_mapped [OF this, of gen]
      show ?thesis
        using i i0 by (simp add: Some c)
    next
      case i: (Some i)
      show ?thesis
        using get_skill_color_hex_mapped [OF i, of gen] i by (simp add: Some c)
    qed
  qed
qed

lemma get_skill_color_hex_keeps:
  assumes "snd (get_skill_color_hex gen step (Some c)) = Some c'" "map_of (skill_color_map c) k = Some i"
  shows "map_of (skill_color_map c') k = Some i"
proof (cases step)
  case None
  then show ?thesis using assms by (simp add: get_skill_color_hex_def)
next
  case (Some n)
  show ?thesis
  proof (cases "map_of (skill_color_map c) n")
    case None
    from get_skill_color_hex_new [OF None, of gen] obtain j where
      "get_skill_color_hex gen (Some n) (Some c) =
         (if j < 50 then SKILL_COLOR_PALETTE_50 ! nat j else gen (j - 50),
          Some (c\<lparr>skill_color_map := skill_color_map c @ [(n, j)]\<rparr>))"
      by blast
    then have "c' = c\<lparr>skill_color_map := skill_color_map c @ [(n, j)]\<rparr>"
      using assms(1) Some by simp
    then show ?thesis
      using assms(2) by (simp add: map_add_def)
  next
    case j: (Some j)
    then have "c' = c"
      using get_skill_color_hex_mapped [OF j, of gen] assms(1) Some by simp
    then show ?thesis using assms(2) by simp
  qed
qed

text \<open>
  Claim C7, with the allocation rule for the case that some palette index is free and for
  the case that none is. Calling the function again with the same category number and the
  configuration it left returns the same colour and leaves the configuration as it is; a
  category already in the map keeps its index; and a category not yet in the map is given
  an index that the map does not use: the lowest unused index of the palette if there is
  one (the colour is then that palette entry), and otherwise one more than the largest index
  in use, which is at least 50 (the colour is then a generated one).
\<close>

theorem color_assignment_stable:
  "get_skill_color_hex gen step (snd (get_skill_color_hex gen step cfg)) =
     get_skill_color_hex gen step cfg \<and>
   (\<forall>c c' k i. cfg = Some c \<and> snd (get_skill_color_hex gen step cfg) = Some c'
        \<and> map_of (skill_color_map c) k = Some i \<longrightarrow>
      map_of (skill_color_map c') k = Some i) \<and>
   (\<forall>c n. cfg = Some c \<and> step = Some n \<and> map_of (skill_color_map c) n = None \<longrightarrow>
      (\<exists>i. snd (get_skill_color_hex gen step cfg) =
              Some (c\<lparr>skill_color_map := skill_color_map c @ [(n, i)]\<rparr>)
          \<and> i \<notin> snd ` set (skill_color_map c)
          \<and> ((\<exists>j. 0 \<le> j \<and> j < 50 \<and> j \<notin> snd ` set (skill_color_map c)) \<longrightarrow>
               0 \<le> i \<and> i < 50
               \<and> (\<forall>j. 0 \<le> j \<and> j < i \<longrightarrow> j \<in> snd ` set (skill_color_map c))
               \<and> fst (get_skill_color_hex gen step cfg) = SKILL_COLOR_PALETTE_50 ! nat i)
          \<and> ((\<forall>j. 0 \<le> j \<and> j < 50 \<longrightarrow> j \<in> snd ` set (skill_color_map c)) \<longrightarrow>
               i = Max (snd ` set (skill_color_map c)) + 1 \<and> 50 \<le> i
               \<and> fst (get_skill_color_hex gen step cfg) = gen (i - 50))))"
proof (intro conjI allI impI)
  show "get_skill_color_hex gen step (snd (get_skill_color_hex gen step cfg)) =
      get_skill_color_hex gen step cfg"
    by (rule get_skill_color_hex_idem)
  show "map_of (skill_color_map c') k = Some i"
    if "cfg = Some c \<and> snd (get_skill_color_hex gen step cfg) = Some c'
        \<and> map_of (skill_color_map c) k = Some i" for c c' k i
  proof -
    from that have "snd (get_skill_color_hex gen step (Some c)) = Some c'"
      and "map_of (skill_color_map c) k = Some i"
      by auto
    then show ?thesis by (rule get_skill_color_hex_keeps)
  qed
  show "\<exists>i. snd (get_skill_color_hex gen step cfg) =
              Some (c\<lparr>skill_color_map := skill_color_map c @ [(n, i)]\<rparr>)
          \<and> i \<notin> snd ` set (skill_color_map c)
          \<and> ((\<exists>j. 0 \<le> j \<and> j < 50 \<and> j \<notin> snd ` set (skill_color_map c)) \<longrightarrow>
               0 \<le> i \<and> i < 50
               \<and> (\<forall>j. 0 \<le> j \<and> j < i \<longrightarrow> j \<in> snd ` set (skill_color_map c))
               \<and> fst (get_skill_color_hex gen step cfg) = SKILL_COLOR_PALETTE_50 ! nat i)
          \<and> ((\<forall>j. 0 \<le> j \<and> j < 50 \<longrightarrow> j \<in> snd ` set (skill_color_map c)) \<longrightarrow>
               i = Max (snd ` set (skill_color_map c)) + 1 \<and> 50 \<le> i
               \<and> fst (get_skill_color_hex gen step cfg) = gen (i - 50))"
    if h: "cfg = Some c \<and> step = Some n \<and> map_of (skill_color_map c) n = None" for c n
  proof -
    from h have "map_of (skill_color_map c) n = None" by simp
    from get_skill_color_hex_new [OF this, of gen] obtain i where
      i: "get_skill_color_hex gen (Some n) (Some c) =
           (if i < 50 then SKILL_COLOR_PALETTE_50 ! nat i else gen (i - 50),
            Some (c\<lparr>skill_color_map := skill_color_map c @ [(n, i)]\<rparr>))"
      and p: "0 \<le> i" "i \<notin> snd ` set (skill_color_map c)"
        "(\<exists>j. 0 \<le> j \<and> j < 50 \<and> j \<notin> snd ` set (skill_color_map c)) \<longrightarrow>
              i < 50 \<and> (\<forall>j. 0 \<le> j \<and> j < i \<longrightarrow> j \<in> snd ` set (skill_color_map c))"
        "(\<forall>j. 0 \<le> j \<and> j < 50 \<longrightarrow> j \<in> snd ` set (skill_color_map c)) \<longrightarrow>
              i = Max (snd ` set (skill_color_map c)) + 1 \<and> 50 \<le> i"
      by blast
    show ?thesis
    proof (intro exI [of _ i] conjI impI)
      show "snd (get_skill_color_hex gen step cfg) =
          Some (c\<lparr>skill_color_map := skill_color_map c @ [(n, i)]\<rparr>)"
        using h i by simp
      show "i \<notin> snd ` set (skill_color_map c)" by (rule p(2))
    next
      assume a: "\<exists>j. 0 \<le> j \<and> j < 50 \<and> j \<notin> snd ` set (skill_color_map c)"
      show "0 \<le> i" by (rule p(1))
      show "i < 50" using p(3) a by blast
      show "\<forall>j. 0 \<le> j \<and> j < i \<longrightarrow> j \<in> snd ` set (skill_color_map c)" using p(3) a by blast
      show "fst (get_skill_color_hex gen step cfg) = SKILL_COLOR_PALETTE_50 ! nat i"
        using h i \<open>i < 50\<close> by simp
    next
      assume a: "\<forall>j. 0 \<le> j \<and> j < 50 \<longrightarrow> j \<in> snd ` set (skill_color_map c)"
      show "i = Max (snd ` set (skill_color_map c)) + 1" using p(4) a by blast
      show "50 \<le> i" using p(4) a by blast
      then show "fst (get_skill_color_hex gen step cfg) = gen (i - 50)"
        using h i by simp
    qed
  qed
qed

lemma find_free_empty: "find (\<lambda>i. True) [0..49::int] = Some 0"
  by (subst upto.simps) simp

lemma full_config_used: "snd ` set (skill_color_map full_config) = insert 60 {0..49}"
  by (simp add: full_config_def image_Un image_image)

lemma full_config_keys: "fst ` set (skill_color_map full_config) = insert 100 {1..50}"
  by (simp add: full_config_def image_Un image_image)

theorem color_assignment_stable_witness:
  "get_skill_color_hex (\<lambda>i. ''generated'') (Some 1) (Some empty_config) =
     (''#E6194B'', Some (empty_config\<lparr>skill_color_map := [(1, 0)]\<rparr>)) \<and>
   get_skill_color_hex (\<lambda>i. ''generated'') (Some 1) (Some (empty_config\<lparr>skill_color_map := [(1, 0)]\<rparr>)) =
     (''#E6194B'', Some (empty_config\<lparr>skill_color_map := [(1, 0)]\<rparr>))"
proof -
  let ?gen = "\<lambda>i::int. ''generated''"
  let ?r = "get_skill_color_hex ?gen (Some 1) (Some empty_config)"
  note T = color_assignment_stable [of ?gen "Some 1" "Some empty_config"]
  have m: "skill_color_map empty_config = []" by (simp add: empty_config_def)
  have free: "\<exists>j::int. 0 \<le> j \<and> j < 50 \<and> j \<notin> snd ` set (skill_color_map empty_config)"
    by (simp add: m) (rule exI [of _ 0], simp)
  from T have "\<exists>i. snd ?r = Some (empty_config\<lparr>skill_color_map := skill_color_map empty_config @ [(1, i)]\<rparr>)
      \<and> ((\<exists>j. 0 \<le> j \<and> j < 50 \<and> j \<notin> snd ` set (skill_color_map empty_config)) \<longrightarrow>
            0 \<le> i \<and> i < 50
            \<and> (\<forall>j. 0 \<le> j \<and> j < i \<longrightarrow> j \<in> snd ` set (skill_color_map empty_config))
            \<and> fst ?r = SKILL_COLOR_PALETTE_50 ! nat i)"
    by (simp add: m) blast
  then obtain i where s: "snd ?r = Some (empty_config\<lparr>skill_color_map := skill_color_map empty_config @ [(1, i)]\<rparr>)"
    and i0: "0 \<le> i" and low: "\<forall>j. 0 \<le> j \<and> j < i \<longrightarrow> j \<in> snd ` set (skill_color_map empty_config)"
    and f: "fst ?r = SKILL_COLOR_PALETTE_50 ! nat i"
    using free by blast
  have "\<not> 0 < i"
  proof
    assume "0 < i"
    then have "0 \<in> snd ` set (skill_color_map empty_config)" using low by simp
    then show False by (simp add: m)
  qed
  then have i: "i = 0" using i0 by simp
  have 1: "?r = (''#E6194B'', Some (empty_config\<lparr>skill_color_map := [(1, 0)]\<rparr>))"
    using s f by (simp add: i m prod_eq_iff SKILL_COLOR_PALETTE_50_def)
  from T have "get_skill_color_hex ?gen (Some 1) (snd ?r) = ?r"
    by (rule conjunct1)
  then show ?thesis
    by (simp add: 1)
qed

text \<open>
  The claim as stated, the lowest palette index not in use for every colour map, fails once
  the map uses the whole palette: with the indices 0 to 49 and 60 in use, index 50 is free
  and a new category is given the index 61.
\<close>

theorem color_palette_exhausted_counterexample:
  "map_of (skill_color_map full_config) 200 = None \<and>
   50 \<notin> snd ` set (skill_color_map full_config) \<and>
   snd (get_skill_color_hex (\<lambda>i. ''generated'') (Some 200) (Some full_config)) =
     Some (full_config\<lparr>skill_color_map := skill_color_map full_config @ [(200, 61)]\<rparr>)"
proof -
  have none: "map_of (skill_color_map full_config) 200 = None"
    by (simp add: map_of_eq_None_iff full_config_keys)
  have all: "\<forall>j. 0 \<le> j \<and> j < 50 \<longrightarrow> j \<in> snd ` set (skill_color_map full_config)"
    by (simp add: full_config_used)
  have "Max (insert 60 {0..49::int}) = 60" by simp
  then have mx: "Max (snd ` set (skill_color_map full_config)) = 60"
    by (simp only: full_config_used)
  from get_skill_color_hex_new [OF none, of "\<lambda>i. ''generated''"] all
  obtain i where "get_skill_color_hex (\<lambda>i. ''generated'') (Some 200) (Some full_config) =
      (if i < 50 then SKILL_COLOR_PALETTE_50 ! nat i else ''generated'',
       Some (full_config\<lparr>skill_color_map := skill_color_map full_config @ [(200, i)]\<rparr>))"
    and "i = Max (snd ` set (skill_color_map full_config)) + 1"
    by blast
  then show ?thesis
    using none by (simp add: mx full_config_used)
qed

text \<open>
  Claim C10. Without a configuration the function returns the palette entry at
  \<open>step_no mod 50\<close>, which exists, and there is no configuration in which a mapping could be
  recorded; so two category numbers that are congruent modulo 50 get the same colour; and
  there is a category whose colour without a configuration differs from its colour with
  one.
\<close>

theorem color_without_config:
  "get_skill_color_hex gen (Some n) None = (SKILL_COLOR_PALETTE_50 ! nat (n mod 50), None) \<and>
   nat (n mod 50) < length SKILL_COLOR_PALETTE_50 \<and>
   (n mod 50 = m mod 50 \<longrightarrow>
      fst (get_skill_color_hex gen (Some n) None) = fst (get_skill_color_hex gen (Some m) None)) \<and>
   (\<exists>k c. fst (get_skill_color_hex gen (Some k) None) \<noteq> fst (get_skill_color_hex gen (Some k) (Some c)))"
proof (intro conjI impI)
  show 1: "get_skill_color_hex gen (Some n) None = (SKILL_COLOR_PALETTE_50 ! nat (n mod 50), None)"
    by (simp add: get_skill_color_hex_def palette_length)
  have "0 \<le> n mod 50" "n mod 50 < 50" by simp_all
  then have "nat (n mod 50) < 50" by linarith
  then show "nat (n mod 50) < length SKILL_COLOR_PALETTE_50"
    using palette_length by simp
  show "fst (get_skill_color_hex gen (Some n) None) = fst (get_skill_color_hex gen (Some m) None)"
    if "n mod 50 = m mod 50"
    using that by (simp add: get_skill_color_hex_def palette_length)
  have "fst (get_skill_color_hex gen (Some 1) None) \<noteq>
      fst (get_skill_color_hex gen (Some 1) (Some empty_config))"
    by (simp add: get_skill_color_hex_def palette_length empty_config_def Let_def find_free_empty
        SKILL_COLOR_PALETTE_50_def)
  then show "\<exists>k c. fst (get_skill_color_hex gen (Some k) None) \<noteq>
      fst (get_skill_color_hex gen (Some k) (Some c))"
    by blast
qed

theorem color_without_config_witness:
  "get_skill_color_hex (\<lambda>i. ''generated'') (Some 1) None = (''#3CB44B'', None) \<and>
   get_skill_color_hex (\<lambda>i. ''generated'') (Some 51) None = (''#3CB44B'', None)"
proof -
  note T = color_without_config [of "\<lambda>i. ''generated''" 1 51]
  have c: "(1::int) mod 50 = 51 mod 50" by simp
  from T have a: "get_skill_color_hex (\<lambda>i. ''generated'') (Some 1) None = (''#3CB44B'', None)"
    by (simp add: SKILL_COLOR_PALETTE_50_def)
  from T c have "fst (get_skill_color_hex (\<lambda>i. ''generated'') (Some 1) None) =
      fst (get_skill_color_hex (\<lambda>i. ''generated'') (Some 51) None)"
    by blast
  moreover have "snd (get_skill_color_hex (\<lambda>i. ''generated'') (Some 51) None) = None"
    using color_without_config [of "\<lambda>i. ''generated''" 51 1] by simp
  ultimately show ?thesis
    using a by (simp add: prod_eq_iff)
qed

end
